theory Spec2Isabelle
  imports Main "HOL-Library.Word"
begin

section \<open>The write-ahead log of kernel/log.c\<close>

text \<open>
  A shallow embedding of \<^verbatim>\<open>kernel/log.c\<close>: the in-memory log, the header codec, the
  commit engine, recovery, admission (\<^verbatim>\<open>begin_op\<close>, \<^verbatim>\<open>end_op\<close>) and \<^verbatim>\<open>log_write\<close>.
  Every C function is a function on an explicit machine state \<open>sys\<close>; a \<^verbatim>\<open>panic\<close>, an
  access outside \<^verbatim>\<open>log.lh.block\<close> or a wait that never ends is the left summand of the
  result.
\<close>

subsection \<open>Build-time constants\<close>

text \<open>
  \<^verbatim>\<open>LOGSIZE\<close>, \<^verbatim>\<open>MAXOPBLOCKS\<close> (param.h) and \<^verbatim>\<open>BSIZE\<close> (fs.h) are not defined in the
  files at hand; they are parameters of the model.
\<close>

record params =
  LOGSIZE :: int
  MAXOPBLOCKS :: int
  BSIZE :: int

subsection \<open>Data\<close>

text \<open>
  A block number is a C \<^verbatim>\<open>uint\<close> (\<^verbatim>\<open>int\<close> in \<^verbatim>\<open>log.lh.block\<close>, compared and passed as
  \<^verbatim>\<open>uint\<close>). The payload \<^verbatim>\<open>uchar data[BSIZE]\<close> of a block is read here as its sequence of
  32-bit words, which is how \<^verbatim>\<open>read_head\<close> and \<^verbatim>\<open>write_head\<close> look at it through
  \<^verbatim>\<open>struct logheader *\<close>: word 0 is \<^verbatim>\<open>n\<close>, word \<open>i + 1\<close> is \<^verbatim>\<open>block[i]\<close>. The check
  in \<^verbatim>\<open>initlog\<close> keeps these \<open>LOGSIZE + 1\<close> words inside the block.
\<close>

type_synonym blockno = "32 word"
type_synonym blockdata = "nat \<Rightarrow> 32 word"

record logheader =
  lh_n :: int
  lh_block :: "blockno list"

record log =
  log_start :: blockno
  log_size :: int
  log_outstanding :: int
  log_committing :: int
  log_dev :: int
  log_lh :: logheader

record superblock =
  sb_logstart :: "32 word"
  sb_nlog :: "32 word"

text \<open>
  \<open>Blocked\<close> is a call that never returns: the thread waits for the lock of a buffer
  that it holds itself.
\<close>

datatype error = Panic string | OutOfBounds | Blocked

text \<open>
  What the log does to its collaborators, in program order: lock and condition calls,
  and every synchronous disk write with the payload written.
\<close>

datatype event = Acquire | Release | Sleep | Wakeup | Bwrite blockno blockdata

record sys =
  disk :: "blockno \<Rightarrow> blockdata"
  cache :: "blockno \<Rightarrow> blockdata option"
  pins :: "blockno \<Rightarrow> int"
  held :: "blockno set"
  lg :: log
  trace :: "event list"

abbreviation hdr :: "sys \<Rightarrow> logheader" where
  "hdr s \<equiv> log_lh (lg s)"

definition set_n :: "int \<Rightarrow> sys \<Rightarrow> sys" where
  "set_n v s = s\<lparr>lg := (lg s)\<lparr>log_lh := (hdr s)\<lparr>lh_n := v\<rparr>\<rparr>\<rparr>"

definition set_block :: "nat \<Rightarrow> blockno \<Rightarrow> sys \<Rightarrow> sys" where
  "set_block i v s = s\<lparr>lg := (lg s)\<lparr>log_lh := (hdr s)\<lparr>lh_block := (lh_block (hdr s))[i := v]\<rparr>\<rparr>\<rparr>"

definition set_outstanding :: "int \<Rightarrow> sys \<Rightarrow> sys" where
  "set_outstanding v s = s\<lparr>lg := (lg s)\<lparr>log_outstanding := v\<rparr>\<rparr>"

definition set_committing :: "int \<Rightarrow> sys \<Rightarrow> sys" where
  "set_committing v s = s\<lparr>lg := (lg s)\<lparr>log_committing := v\<rparr>\<rparr>"

definition emit :: "event \<Rightarrow> sys \<Rightarrow> sys" where
  "emit e s = s\<lparr>trace := trace s @ [e]\<rparr>"

subsection \<open>The buffer cache and the lock, as the log uses them\<close>

text \<open>
  Modelled from the spec: \<^verbatim>\<open>bread\<close>, \<^verbatim>\<open>bwrite\<close>, \<^verbatim>\<open>brelse\<close>, \<^verbatim>\<open>bpin\<close> and \<^verbatim>\<open>bunpin\<close>
  (bio.c) are missing. Sections 3 and 6 of the specification give their contract:
  read-block returns a locked handle of the block's buffer, loading the buffer from disk
  when it is not cached, and may block until the current holder of the buffer releases
  it; write-block writes the buffer's current payload to its home location,
  synchronously; release-block gives the lock and the handle back and leaves the payload
  cached; pin and unpin adjust a pin count that is independent of the handle. A buffer
  handle \<^verbatim>\<open>struct buf *\<close> is modelled by the block number that identifies the buffer, and
  \<open>held\<close> is the set of buffers whose lock this thread holds. A read of a buffer in
  \<open>held\<close> waits for a release that only the waiting thread could make: it is
  \<open>Blocked\<close>. Buffers held by other threads are released in the end and only delay a
  read, so they are not part of the state. Reference counts are left out, and so is
  eviction: it never touches a pinned buffer, and a clean buffer reads the same from the
  cache as from the disk.
\<close>

definition payload :: "sys \<Rightarrow> blockno \<Rightarrow> blockdata" where
  "payload s b = (case cache s b of Some d \<Rightarrow> d | None \<Rightarrow> disk s b)"

text \<open>What a read that returns does: the buffer is cached, and locked by this thread.\<close>

definition load :: "blockno \<Rightarrow> sys \<Rightarrow> sys" where
  "load b s = s\<lparr>cache := (cache s)(b \<mapsto> payload s b), held := insert b (held s)\<rparr>"

definition bread :: "blockno \<Rightarrow> sys \<Rightarrow> error + sys" where
  "bread b s = (if b \<in> held s then Inl Blocked else Inr (load b s))"

definition bwrite :: "blockno \<Rightarrow> sys \<Rightarrow> sys" where
  "bwrite b s = emit (Bwrite b (payload s b)) (s\<lparr>disk := (disk s)(b := payload s b)\<rparr>)"

definition brelse :: "blockno \<Rightarrow> sys \<Rightarrow> sys" where
  "brelse b s = s\<lparr>held := held s - {b}\<rparr>"

definition bpin :: "blockno \<Rightarrow> sys \<Rightarrow> sys" where
  "bpin b s = s\<lparr>pins := (pins s)(b := pins s b + 1)\<rparr>"

definition bunpin :: "blockno \<Rightarrow> sys \<Rightarrow> sys" where
  "bunpin b s = s\<lparr>pins := (pins s)(b := pins s b - 1)\<rparr>"

text \<open>\<^verbatim>\<open>memmove(dst->data, src->data, BSIZE)\<close> between two buffers.\<close>

definition memmove_buf :: "blockno \<Rightarrow> blockno \<Rightarrow> sys \<Rightarrow> sys" where
  "memmove_buf dst src s = s\<lparr>cache := (cache s)(dst \<mapsto> payload s src)\<rparr>"

text \<open>A store of one word through a pointer into a buffer's payload.\<close>

definition poke :: "blockno \<Rightarrow> nat \<Rightarrow> 32 word \<Rightarrow> sys \<Rightarrow> sys" where
  "poke b k v s = s\<lparr>cache := (cache s)(b \<mapsto> (payload s b)(k := v))\<rparr>"

text \<open>
  Modelled from the spec: \<^verbatim>\<open>acquire\<close>, \<^verbatim>\<open>release\<close>, \<^verbatim>\<open>wakeup\<close> (spinlock.c, proc.c) are
  missing; they are recorded as events.
\<close>

definition acquire :: "sys \<Rightarrow> sys" where
  "acquire s = emit Acquire s"

definition release :: "sys \<Rightarrow> sys" where
  "release s = emit Release s"

definition wakeup :: "sys \<Rightarrow> sys" where
  "wakeup s = emit Wakeup s"

subsection \<open>The header codec\<close>

definition hdr_n :: "blockdata \<Rightarrow> int" where
  "hdr_n d = sint (d 0)"

definition hdr_block :: "blockdata \<Rightarrow> nat \<Rightarrow> blockno" where
  "hdr_block d i = d (Suc i)"

text \<open>The loop of \<^verbatim>\<open>read_head\<close>; \<open>hb\<close> is the payload \<^verbatim>\<open>lh\<close> points to.\<close>

function read_head_from :: "blockdata \<Rightarrow> nat \<Rightarrow> sys \<Rightarrow> error + sys" where
  "read_head_from hb i s =
     (if int i < lh_n (hdr s) then
        (if i < length (lh_block (hdr s))
         then read_head_from hb (Suc i) (set_block i (hdr_block hb i) s)
         else Inl OutOfBounds)
      else Inr s)"
  by pat_completeness auto
termination
  by (relation "measure (\<lambda>(hb, i, s). nat (lh_n (hdr s)) - i)") (auto simp: set_block_def)

definition read_head :: "sys \<Rightarrow> error + sys" where
  "read_head s =
     (let buf = log_start (lg s)
      in case bread buf s of
           Inl e \<Rightarrow> Inl e
         | Inr s1 \<Rightarrow>
             (let hb = payload s1 buf;
                  s2 = set_n (hdr_n hb) s1
              in case read_head_from hb 0 s2 of
                   Inl e \<Rightarrow> Inl e
                 | Inr s3 \<Rightarrow> Inr (brelse buf s3)))"

text \<open>The loop of \<^verbatim>\<open>write_head\<close>; \<open>buf\<close> is the header's buffer.\<close>

function write_head_from :: "blockno \<Rightarrow> nat \<Rightarrow> sys \<Rightarrow> error + sys" where
  "write_head_from buf i s =
     (if int i < lh_n (hdr s) then
        (if i < length (lh_block (hdr s))
         then write_head_from buf (Suc i) (poke buf (Suc i) (lh_block (hdr s) ! i) s)
         else Inl OutOfBounds)
      else Inr s)"
  by pat_completeness auto
termination
  by (relation "measure (\<lambda>(buf, i, s). nat (lh_n (hdr s)) - i)") (auto simp: poke_def)

definition write_head :: "sys \<Rightarrow> error + sys" where
  "write_head s =
     (let buf = log_start (lg s)
      in case bread buf s of
           Inl e \<Rightarrow> Inl e
         | Inr s1 \<Rightarrow>
             (let s2 = poke buf 0 (word_of_int (lh_n (hdr s1))) s1
              in case write_head_from buf 0 s2 of
                   Inl e \<Rightarrow> Inl e
                 | Inr s3 \<Rightarrow> Inr (brelse buf (bwrite buf s3))))"

subsection \<open>Install, recovery, commit\<close>

definition slot :: "sys \<Rightarrow> nat \<Rightarrow> blockno" where
  "slot s tail = log_start (lg s) + of_nat tail + 1"

text \<open>One iteration of the loop of \<^verbatim>\<open>install_trans\<close>.\<close>

definition install_body :: "int \<Rightarrow> nat \<Rightarrow> sys \<Rightarrow> error + sys" where
  "install_body recovering tail s =
     (let lbuf = slot s tail
      in case bread lbuf s of
           Inl e \<Rightarrow> Inl e
         | Inr s1 \<Rightarrow>
             (let dbuf = lh_block (hdr s1) ! tail
              in case bread dbuf s1 of
                   Inl e \<Rightarrow> Inl e
                 | Inr s2 \<Rightarrow>
                     (let s3 = memmove_buf dbuf lbuf s2;
                          s4 = bwrite dbuf s3;
                          s5 = (if recovering = 0 then bunpin dbuf s4 else s4);
                          s6 = brelse lbuf s5
                      in Inr (brelse dbuf s6))))"

function install_trans_from :: "int \<Rightarrow> nat \<Rightarrow> sys \<Rightarrow> error + sys" where
  "install_trans_from recovering tail s =
     (if int tail < lh_n (hdr s) then
        (if tail < length (lh_block (hdr s)) then
           (case install_body recovering tail s of
              Inl e \<Rightarrow> Inl e
            | Inr s' \<Rightarrow> install_trans_from recovering (Suc tail) s')
         else Inl OutOfBounds)
      else Inr s)"
  by pat_completeness auto
termination
  by (relation "measure (\<lambda>(r, tail, s). nat (lh_n (hdr s)) - tail)")
     (auto simp: install_body_def Let_def bread_def load_def memmove_buf_def bwrite_def
                 bunpin_def brelse_def emit_def split: if_splits)

definition install_trans :: "int \<Rightarrow> sys \<Rightarrow> error + sys" where
  "install_trans recovering s = install_trans_from recovering 0 s"

definition recover_from_log :: "sys \<Rightarrow> error + sys" where
  "recover_from_log s =
     (case read_head s of
        Inl e \<Rightarrow> Inl e
      | Inr s1 \<Rightarrow>
          (case install_trans 1 s1 of
             Inl e \<Rightarrow> Inl e
           | Inr s2 \<Rightarrow> write_head (set_n 0 s2)))"

definition sizeof_logheader :: "params \<Rightarrow> int" where
  "sizeof_logheader P = 4 * (LOGSIZE P + 1)"

definition initlog :: "params \<Rightarrow> int \<Rightarrow> superblock \<Rightarrow> sys \<Rightarrow> error + sys" where
  "initlog P dv sb s =
     (if sizeof_logheader P \<ge> BSIZE P then Inl (Panic ''initlog: too big logheader'')
      else recover_from_log
             (s\<lparr>lg := (lg s)\<lparr>log_start := sb_logstart sb, log_size := sint (sb_nlog sb),
                              log_dev := dv\<rparr>\<rparr>))"

text \<open>One iteration of the loop of \<^verbatim>\<open>write_log\<close>.\<close>

definition write_log_body :: "nat \<Rightarrow> sys \<Rightarrow> error + sys" where
  "write_log_body tail s =
     (let to = slot s tail
      in case bread to s of
           Inl e \<Rightarrow> Inl e
         | Inr s1 \<Rightarrow>
             (let from = lh_block (hdr s1) ! tail
              in case bread from s1 of
                   Inl e \<Rightarrow> Inl e
                 | Inr s2 \<Rightarrow>
                     (let s3 = memmove_buf to from s2;
                          s4 = bwrite to s3;
                          s5 = brelse from s4
                      in Inr (brelse to s5))))"

function write_log_from :: "nat \<Rightarrow> sys \<Rightarrow> error + sys" where
  "write_log_from tail s =
     (if int tail < lh_n (hdr s) then
        (if tail < length (lh_block (hdr s)) then
           (case write_log_body tail s of
              Inl e \<Rightarrow> Inl e
            | Inr s' \<Rightarrow> write_log_from (Suc tail) s')
         else Inl OutOfBounds)
      else Inr s)"
  by pat_completeness auto
termination
  by (relation "measure (\<lambda>(tail, s). nat (lh_n (hdr s)) - tail)")
     (auto simp: write_log_body_def Let_def bread_def load_def memmove_buf_def bwrite_def
                 brelse_def emit_def split: if_splits)

definition write_log :: "sys \<Rightarrow> error + sys" where
  "write_log s = write_log_from 0 s"

definition commit :: "sys \<Rightarrow> error + sys" where
  "commit s =
     (if lh_n (hdr s) > 0 then
        (case write_log s of
           Inl e \<Rightarrow> Inl e
         | Inr s1 \<Rightarrow>
             (case write_head s1 of
                Inl e \<Rightarrow> Inl e
              | Inr s2 \<Rightarrow>
                  (case install_trans 0 s2 of
                     Inl e \<Rightarrow> Inl e
                   | Inr s3 \<Rightarrow> write_head (set_n 0 s3))))
      else Inr s)"

subsection \<open>Admission and log_write\<close>

text \<open>
  Modelled from the spec: \<^verbatim>\<open>sleep\<close> (proc.c) is missing. Section 5 of the specification:
  the sleeper gives up the lock, and holds it again when it wakes. What the other threads
  did to the log in between is the \<open>seen\<close> of a wake-up, and \<open>killed\<close> says whether the
  process was killed while it slept. A schedule is the list of wake-ups the thread gets;
  \<open>None\<close> is a thread still asleep when the schedule ends.
\<close>

record wake =
  killed :: bool
  seen :: log

definition sleep :: "wake \<Rightarrow> sys \<Rightarrow> sys" where
  "sleep w s = (emit Sleep s)\<lparr>lg := seen w\<rparr>"

fun begin_op_loop :: "params \<Rightarrow> wake list \<Rightarrow> sys \<Rightarrow> sys option" where
  "begin_op_loop P ws s =
     (if log_committing (lg s) \<noteq> 0 then
        (case ws of [] \<Rightarrow> None | w # ws' \<Rightarrow> begin_op_loop P ws' (sleep w s))
      else if lh_n (hdr s) + (log_outstanding (lg s) + 1) * MAXOPBLOCKS P > LOGSIZE P then
        (case ws of [] \<Rightarrow> None | w # ws' \<Rightarrow> begin_op_loop P ws' (sleep w s))
      else Some (release (set_outstanding (log_outstanding (lg s) + 1) s)))"

definition begin_op :: "params \<Rightarrow> wake list \<Rightarrow> sys \<Rightarrow> sys option" where
  "begin_op P ws s = begin_op_loop P ws (acquire s)"

definition end_op :: "sys \<Rightarrow> error + sys" where
  "end_op s =
     (let s1 = acquire s;
          s2 = set_outstanding (log_outstanding (lg s1) - 1) s1
      in if log_committing (lg s2) \<noteq> 0 then Inl (Panic ''log.committing'')
         else
           (let (do_commit, s3) =
                  (if log_outstanding (lg s2) = 0 then (1 :: int, set_committing 1 s2)
                   else (0, wakeup s2));
                s4 = release s3
            in if do_commit \<noteq> 0 then
                 (case commit s4 of
                    Inl e \<Rightarrow> Inl e
                  | Inr s5 \<Rightarrow> Inr (release (wakeup (set_committing 0 (acquire s5)))))
               else Inr s4))"

text \<open>
  The state in which \<^verbatim>\<open>end_op\<close> calls \<^verbatim>\<open>commit\<close>: the counter is decremented,
  \<^verbatim>\<open>log.committing\<close> is set and the lock is released.
\<close>

definition committer :: "sys \<Rightarrow> sys" where
  "committer s =
     release (set_committing 1 (set_outstanding (log_outstanding (lg s) - 1) (acquire s)))"

text \<open>The scan of \<^verbatim>\<open>log_write\<close> for the block number; it returns the final \<^verbatim>\<open>i\<close>.\<close>

function log_scan :: "blockno \<Rightarrow> nat \<Rightarrow> sys \<Rightarrow> error + nat" where
  "log_scan b i s =
     (if int i < lh_n (hdr s) then
        (if i < length (lh_block (hdr s)) then
           (if lh_block (hdr s) ! i = b then Inr i else log_scan b (Suc i) s)
         else Inl OutOfBounds)
      else Inr i)"
  by pat_completeness auto
termination
  by (relation "measure (\<lambda>(b, i, s). nat (lh_n (hdr s)) - i)") auto

definition log_write :: "params \<Rightarrow> blockno \<Rightarrow> sys \<Rightarrow> error + sys" where
  "log_write P b s =
     (let s1 = acquire s
      in if lh_n (hdr s1) \<ge> LOGSIZE P \<or> lh_n (hdr s1) \<ge> log_size (lg s1) - 1
         then Inl (Panic ''too big a transaction'')
         else if log_outstanding (lg s1) < 1
         then Inl (Panic ''log_write outside of trans'')
         else (case log_scan b 0 s1 of
                 Inl e \<Rightarrow> Inl e
               | Inr i \<Rightarrow>
                   if i < length (lh_block (hdr s1)) then
                     (let s2 = set_block i b s1;
                          s3 = (if int i = lh_n (hdr s2)
                                then set_n (lh_n (hdr s2) + 1) (bpin b s2) else s2)
                      in Inr (release s3))
                   else Inl OutOfBounds))"

subsection \<open>Callers, crashes and reboots\<close>

text \<open>
  The use of \<^verbatim>\<open>log_write\<close> that its comment documents: \<^verbatim>\<open>bp = bread(...)\<close>, modify
  \<^verbatim>\<open>bp->data[]\<close>, \<^verbatim>\<open>log_write(bp)\<close>, \<^verbatim>\<open>brelse(bp)\<close>. The caller's modification is the
  new payload \<open>d\<close> of the buffer.
\<close>

definition modify :: "blockno \<Rightarrow> blockdata \<Rightarrow> sys \<Rightarrow> sys" where
  "modify b d s = s\<lparr>cache := (cache s)(b \<mapsto> d)\<rparr>"

definition fs_write :: "params \<Rightarrow> blockno \<Rightarrow> blockdata \<Rightarrow> sys \<Rightarrow> error + sys" where
  "fs_write P b d s =
     (case bread b s of
        Inl e \<Rightarrow> Inl e
      | Inr s1 \<Rightarrow>
          (case log_write P b (modify b d s1) of
             Inl e \<Rightarrow> Inl e
           | Inr s' \<Rightarrow> Inr (brelse b s')))"

fun fs_writes :: "params \<Rightarrow> (blockno \<times> blockdata) list \<Rightarrow> sys \<Rightarrow> error + sys" where
  "fs_writes P [] s = Inr s"
| "fs_writes P ((b, d) # ws) s =
     (case fs_write P b d s of Inl e \<Rightarrow> Inl e | Inr s' \<Rightarrow> fs_writes P ws s')"

text \<open>The disk writes among a list of events, and their effect on a disk, in order.\<close>

fun writes :: "event list \<Rightarrow> (blockno \<times> blockdata) list" where
  "writes [] = []"
| "writes (Bwrite b d # es) = (b, d) # writes es"
| "writes (e # es) = writes es"

fun replay :: "(blockno \<times> blockdata) list \<Rightarrow> (blockno \<Rightarrow> blockdata) \<Rightarrow> (blockno \<Rightarrow> blockdata)" where
  "replay [] d = d"
| "replay ((b, v) # ws) d = replay ws (d(b := v))"

text \<open>
  The events of a run from \<open>s\<close> to \<open>s'\<close>, and the disk that a crash leaves when it
  strikes after the first \<open>k\<close> disk writes of that run: writes are synchronous and
  ordered, so the disk holds exactly those \<open>k\<close> writes.
\<close>

definition events_since :: "sys \<Rightarrow> sys \<Rightarrow> event list" where
  "events_since s s' = drop (length (trace s)) (trace s')"

definition crash_disk :: "sys \<Rightarrow> sys \<Rightarrow> nat \<Rightarrow> (blockno \<Rightarrow> blockdata)" where
  "crash_disk s s' k = replay (take k (writes (events_since s s'))) (disk s)"

text \<open>
  The machine after a reboot on disk \<open>d\<close>: nothing is cached, pinned or held, and the
  global \<^verbatim>\<open>struct log log\<close> is zero.
\<close>

definition boot :: "params \<Rightarrow> (blockno \<Rightarrow> blockdata) \<Rightarrow> sys" where
  "boot P d =
     \<lparr>disk = d, cache = (\<lambda>b. None), pins = (\<lambda>b. 0), held = {},
      lg = \<lparr>log_start = 0, log_size = 0, log_outstanding = 0, log_committing = 0, log_dev = 0,
            log_lh = \<lparr>lh_n = 0, lh_block = replicate (nat (LOGSIZE P)) 0\<rparr>\<rparr>,
      trace = []\<rparr>"

text \<open>The logged block numbers, and the disk positions of their log slots.\<close>

definition logged :: "sys \<Rightarrow> blockno list" where
  "logged s = take (nat (lh_n (hdr s))) (lh_block (hdr s))"

definition slots :: "sys \<Rightarrow> blockno list" where
  "slots s = map (slot s) [0..<nat (lh_n (hdr s))]"

text \<open>
  What \<^verbatim>\<open>write_head\<close> leaves in the header block whose payload was \<open>d\<close>: the count, the
  first \<open>n\<close> block numbers, and the old words everywhere else.
\<close>

definition encode :: "logheader \<Rightarrow> blockdata \<Rightarrow> blockdata" where
  "encode h d =
     (\<lambda>k. if k = 0 then word_of_int (lh_n h)
          else if int k \<le> lh_n h then lh_block h ! (k - 1)
          else d k)"

text \<open>
  The in-memory log is well formed: \<^verbatim>\<open>block\<close> has its \<open>LOGSIZE\<close> entries, the count lies
  within them, and \<open>LOGSIZE\<close> is a C \<^verbatim>\<open>int\<close>.
\<close>

definition log_ok :: "params \<Rightarrow> sys \<Rightarrow> bool" where
  "log_ok P s =
     (length (lh_block (hdr s)) = nat (LOGSIZE P) \<and> 0 \<le> lh_n (hdr s) \<and>
      lh_n (hdr s) \<le> LOGSIZE P \<and> LOGSIZE P < 2 ^ 31)"

text \<open>
  Home locations lie outside the log: no logged block number is the header block or one
  of the log slots in use.
\<close>

definition homes_outside_log :: "sys \<Rightarrow> bool" where
  "homes_outside_log s =
     (log_start (lg s) \<notin> set (logged s) \<and> set (logged s) \<inter> set (slots s) = {})"

text \<open>
  A run from \<open>s\<close> to \<open>s'\<close> is tracked when it only appended events and its disk
  writes, replayed, account for the whole change of the disk.
\<close>

definition tracked :: "sys \<Rightarrow> sys \<Rightarrow> bool" where
  "tracked s s' =
     ((\<exists>T. trace s' = trace s @ T) \<and> disk s' = replay (writes (events_since s s')) (disk s))"

text \<open>
  A stretch of events in which the thread neither takes nor gives up \<^verbatim>\<open>log.lock\<close>, and
  neither sleeps nor wakes anyone: all it does is write to the disk.
\<close>

definition lock_free :: "event list \<Rightarrow> bool" where
  "lock_free es = (set es \<inter> {Acquire, Release, Sleep, Wakeup} = {})"

text \<open>
  The four phases of a commit from state \<open>s\<close>, as the specification words them: (1) the
  live payload of each logged block goes to its log slot, (2) the header goes to disk with
  the true count, (3) each logged block's payload goes to its home block, (4) the header
  goes to disk again with count 0.
\<close>

definition phase1 :: "sys \<Rightarrow> event list" where
  "phase1 s =
     map (\<lambda>i. Bwrite (slot s i) (payload s (lh_block (hdr s) ! i))) [0..<nat (lh_n (hdr s))]"

definition phase2 :: "sys \<Rightarrow> event list" where
  "phase2 s = [Bwrite (log_start (lg s)) (encode (hdr s) (payload s (log_start (lg s))))]"

definition phase3 :: "sys \<Rightarrow> event list" where
  "phase3 s =
     map (\<lambda>i. Bwrite (lh_block (hdr s) ! i) (payload s (lh_block (hdr s) ! i)))
       [0..<nat (lh_n (hdr s))]"

definition phase4 :: "sys \<Rightarrow> event list" where
  "phase4 s =
     [Bwrite (log_start (lg s)) ((encode (hdr s) (payload s (log_start (lg s))))(0 := 0))]"

definition four_phases :: "sys \<Rightarrow> event list" where
  "four_phases s = phase1 s @ phase2 s @ phase3 s @ phase4 s"

subsection \<open>Admission and runs of transactions\<close>

text \<open>
  The state in which \<^verbatim>\<open>begin_op\<close> stops waiting: neither of its two sleep conditions
  holds.
\<close>

definition admissible :: "params \<Rightarrow> log \<Rightarrow> bool" where
  "admissible P l =
     (log_committing l = 0 \<and>
      lh_n (log_lh l) + (log_outstanding l + 1) * MAXOPBLOCKS P \<le> LOGSIZE P)"

text \<open>
  A run is a sequence of calls by numbered threads, one call after the other: every call
  touches the log under \<^verbatim>\<open>log.lock\<close>. The world of a run is the machine together with
  the open transactions, each with the distinct blocks it has logged so far. A call is a
  step of the run when its thread may make it (a thread begins when it has no transaction
  open, writes and ends inside its transaction, and logs at most \<open>MAXOPBLOCKS\<close> distinct
  blocks) and the call returns; a \<^verbatim>\<open>begin_op\<close> that would sleep is no step.
\<close>

datatype call = Begin nat | Write nat blockno | End nat

record world =
  w_sys :: sys
  w_open :: "(nat \<times> blockno list) list"

fun note_block :: "nat \<Rightarrow> blockno \<Rightarrow> (nat \<times> blockno list) list \<Rightarrow> (nat \<times> blockno list) list" where
  "note_block t b [] = []"
| "note_block t b ((u, bs) # xs) =
     (if u = t then (u, if b \<in> set bs then bs else bs @ [b]) # xs
      else (u, bs) # note_block t b xs)"

fun step :: "params \<Rightarrow> call \<Rightarrow> world \<Rightarrow> world option" where
  "step P (Begin t) w =
     (if t \<in> fst ` set (w_open w) then None
      else (case begin_op P [] (w_sys w) of
              None \<Rightarrow> None
            | Some s' \<Rightarrow> Some \<lparr>w_sys = s', w_open = (t, []) # w_open w\<rparr>))"
| "step P (Write t b) w =
     (case map_of (w_open w) t of
        None \<Rightarrow> None
      | Some bs \<Rightarrow>
          if b \<notin> set bs \<and> MAXOPBLOCKS P \<le> int (length bs) then None
          else (case log_write P b (w_sys w) of
                  Inl e \<Rightarrow> None
                | Inr s' \<Rightarrow> Some \<lparr>w_sys = s', w_open = note_block t b (w_open w)\<rparr>))"
| "step P (End t) w =
     (case map_of (w_open w) t of
        None \<Rightarrow> None
      | Some bs \<Rightarrow>
          (case end_op (w_sys w) of
             Inl e \<Rightarrow> None
           | Inr s' \<Rightarrow> Some \<lparr>w_sys = s', w_open = filter (\<lambda>x. fst x \<noteq> t) (w_open w)\<rparr>))"

fun run :: "params \<Rightarrow> call list \<Rightarrow> world \<Rightarrow> world option" where
  "run P [] w = Some w"
| "run P (c # cs) w = (case step P c w of None \<Rightarrow> None | Some w' \<Rightarrow> run P cs w')"

text \<open>
  Two readings of the blocks reserved for the open transactions: the whole reservation
  of \<open>MAXOPBLOCKS\<close> for each, as the test of \<^verbatim>\<open>begin_op\<close> counts it, and the part of
  each reservation that its transaction has not used yet.
\<close>

definition whole_reservation :: "params \<Rightarrow> world \<Rightarrow> int" where
  "whole_reservation P w = log_outstanding (lg (w_sys w)) * MAXOPBLOCKS P"

definition unused_reservation :: "params \<Rightarrow> world \<Rightarrow> int" where
  "unused_reservation P w =
     sum_list (map (\<lambda>x. MAXOPBLOCKS P - int (length (snd x))) (w_open w))"

text \<open>
  What a run keeps true of its world: the log is well formed and not committing,
  \<^verbatim>\<open>log.outstanding\<close> counts the open transactions, each of them has logged at most
  \<open>MAXOPBLOCKS\<close> distinct blocks, all of them in the log, and the count together with the
  unused reservations fits the log.
\<close>

definition run_inv :: "params \<Rightarrow> world \<Rightarrow> bool" where
  "run_inv P w =
     (log_ok P (w_sys w) \<and> 0 \<le> MAXOPBLOCKS P \<and> log_committing (lg (w_sys w)) = 0 \<and>
      log_outstanding (lg (w_sys w)) = int (length (w_open w)) \<and>
      distinct (map fst (w_open w)) \<and>
      (\<forall>x \<in> set (w_open w).
          set (snd x) \<subseteq> set (logged (w_sys w)) \<and> int (length (snd x)) \<le> MAXOPBLOCKS P) \<and>
      lh_n (hdr (w_sys w)) + unused_reservation P w \<le> LOGSIZE P)"

subsection \<open>A concrete machine\<close>

text \<open>
  The scenario of the specification: a log at block 2 whose on-disk header has count 2 and
  lists blocks 5 and 9, with the two payloads in the log slots 3 and 4.
\<close>

definition P0 :: params where
  "P0 = \<lparr>LOGSIZE = 4, MAXOPBLOCKS = 1, BSIZE = 1024\<rparr>"

definition scenario_disk :: "blockno \<Rightarrow> blockdata" where
  "scenario_disk =
     (\<lambda>b k. 0)(2 := (\<lambda>k. 0)(0 := 2, 1 := 5, 2 := 9), 3 := (\<lambda>k. 7), 4 := (\<lambda>k. 8))"

definition mounted :: "params \<Rightarrow> (blockno \<Rightarrow> blockdata) \<Rightarrow> sys" where
  "mounted P d = (boot P d)\<lparr>lg := (lg (boot P d))\<lparr>log_start := 2, log_size := LOGSIZE P\<rparr>\<rparr>"

text \<open>
  A batch ready to commit on an empty disk: blocks 5 and 9 are logged, and their modified
  payloads are in the cache.
\<close>

definition batch :: sys where
  "batch =
     (mounted P0 (\<lambda>b k. 0))
       \<lparr>cache := (\<lambda>b. None)(5 \<mapsto> (\<lambda>k. 7), 9 \<mapsto> (\<lambda>k. 8)),
        lg := (lg (mounted P0 (\<lambda>b k. 0)))\<lparr>log_lh := \<lparr>lh_n = 2, lh_block = [5, 9, 0, 0]\<rparr>\<rparr>\<rparr>"

text \<open>A mounted machine with an empty log and one transaction open.\<close>

definition opened :: sys where
  "opened = set_outstanding 1 (mounted P0 (\<lambda>b k. 0))"

text \<open>The world of a mounted machine with an empty log and no transaction open.\<close>

definition fresh :: "params \<Rightarrow> (blockno \<Rightarrow> blockdata) \<Rightarrow> world" where
  "fresh P d = \<lparr>w_sys = mounted P d, w_open = []\<rparr>"

text \<open>
  A mounted machine in the middle of a commit, and the wake-up of a thread that was
  killed while it slept and sees the log idle again.
\<close>

definition committing_now :: sys where
  "committing_now = set_committing 1 (mounted P0 (\<lambda>b k. 0))"

definition killed_wake :: wake where
  "killed_wake = \<lparr>killed = True, seen = lg (mounted P0 (\<lambda>b k. 0))\<rparr>"

section \<open>Properties\<close>

subsection \<open>What each primitive does to each observation\<close>

lemma payload_load [simp]: "payload (load b s) x = payload s x"
  by (simp add: payload_def load_def split: option.splits)

lemma payload_memmove [simp]:
  "payload (memmove_buf dst src s) x = (if x = dst then payload s src else payload s x)"
  by (simp add: payload_def memmove_buf_def split: option.splits)

lemma payload_poke [simp]:
  "payload (poke b k v s) x = (if x = b then (payload s b)(k := v) else payload s x)"
  by (simp add: payload_def poke_def split: option.splits)

lemma payload_bwrite [simp]: "payload (bwrite b s) x = payload s x"
  by (simp add: payload_def bwrite_def emit_def split: option.splits)

lemma payload_other [simp]:
  "payload (brelse b s) x = payload s x"
  "payload (bpin b s) x = payload s x"
  "payload (bunpin b s) x = payload s x"
  "payload (set_n v s) x = payload s x"
  "payload (set_block i c s) x = payload s x"
  "payload (set_outstanding v s) x = payload s x"
  "payload (set_committing v s) x = payload s x"
  "payload (emit e s) x = payload s x"
  by (simp_all add: payload_def brelse_def bpin_def bunpin_def set_n_def set_block_def
        set_outstanding_def set_committing_def emit_def split: option.splits)

lemma disk_prims [simp]:
  "disk (load b s) = disk s"
  "disk (memmove_buf dst src s) = disk s"
  "disk (poke b k w s) = disk s"
  "disk (bwrite b s) = (disk s)(b := payload s b)"
  "disk (brelse b s) = disk s"
  "disk (bpin b s) = disk s"
  "disk (bunpin b s) = disk s"
  "disk (set_n v s) = disk s"
  "disk (set_block i c s) = disk s"
  "disk (set_outstanding v s) = disk s"
  "disk (set_committing v s) = disk s"
  "disk (emit e s) = disk s"
  by (simp_all add: load_def memmove_buf_def poke_def bwrite_def brelse_def bpin_def
        bunpin_def set_n_def set_block_def set_outstanding_def set_committing_def emit_def)

lemma pins_prims [simp]:
  "pins (load b s) = pins s"
  "pins (memmove_buf dst src s) = pins s"
  "pins (poke b k w s) = pins s"
  "pins (bwrite b s) = pins s"
  "pins (brelse b s) = pins s"
  "pins (bpin b s) = (pins s)(b := pins s b + 1)"
  "pins (bunpin b s) = (pins s)(b := pins s b - 1)"
  "pins (set_n v s) = pins s"
  "pins (set_block i c s) = pins s"
  "pins (set_outstanding v s) = pins s"
  "pins (set_committing v s) = pins s"
  "pins (emit e s) = pins s"
  by (simp_all add: load_def memmove_buf_def poke_def bwrite_def brelse_def bpin_def
        bunpin_def set_n_def set_block_def set_outstanding_def set_committing_def emit_def)

lemma lg_prims [simp]:
  "lg (load b s) = lg s"
  "lg (memmove_buf dst src s) = lg s"
  "lg (poke b k w s) = lg s"
  "lg (bwrite b s) = lg s"
  "lg (brelse b s) = lg s"
  "lg (bpin b s) = lg s"
  "lg (bunpin b s) = lg s"
  "lg (emit e s) = lg s"
  by (simp_all add: load_def memmove_buf_def poke_def bwrite_def brelse_def bpin_def
        bunpin_def emit_def)

lemma lg_setters [simp]:
  "lg (set_n v s) = (lg s)\<lparr>log_lh := (hdr s)\<lparr>lh_n := v\<rparr>\<rparr>"
  "lg (set_block i c s) = (lg s)\<lparr>log_lh := (hdr s)\<lparr>lh_block := (lh_block (hdr s))[i := c]\<rparr>\<rparr>"
  "lg (set_outstanding v s) = (lg s)\<lparr>log_outstanding := v\<rparr>"
  "lg (set_committing v s) = (lg s)\<lparr>log_committing := v\<rparr>"
  by (simp_all add: set_n_def set_block_def set_outstanding_def set_committing_def)

lemma trace_prims [simp]:
  "trace (load b s) = trace s"
  "trace (memmove_buf dst src s) = trace s"
  "trace (poke b k w s) = trace s"
  "trace (bwrite b s) = trace s @ [Bwrite b (payload s b)]"
  "trace (brelse b s) = trace s"
  "trace (bpin b s) = trace s"
  "trace (bunpin b s) = trace s"
  "trace (set_n v s) = trace s"
  "trace (set_block i c s) = trace s"
  "trace (set_outstanding v s) = trace s"
  "trace (set_committing v s) = trace s"
  "trace (emit e s) = trace s @ [e]"
  by (simp_all add: load_def memmove_buf_def poke_def bwrite_def brelse_def bpin_def
        bunpin_def set_n_def set_block_def set_outstanding_def set_committing_def emit_def)

lemma held_prims [simp]:
  "held (load b s) = insert b (held s)"
  "held (memmove_buf dst src s) = held s"
  "held (poke b k w s) = held s"
  "held (bwrite b s) = held s"
  "held (brelse b s) = held s - {b}"
  "held (bpin b s) = held s"
  "held (bunpin b s) = held s"
  "held (set_n v s) = held s"
  "held (set_block i c s) = held s"
  "held (set_outstanding v s) = held s"
  "held (set_committing v s) = held s"
  "held (emit e s) = held s"
  by (simp_all add: load_def memmove_buf_def poke_def bwrite_def brelse_def bpin_def
        bunpin_def set_n_def set_block_def set_outstanding_def set_committing_def emit_def)

lemma bread_Inr: "bread b s = Inr s' \<longleftrightarrow> b \<notin> held s \<and> s' = load b s"
  by (auto simp: bread_def)

lemma lock_prims [simp]:
  "acquire s = emit Acquire s"
  "release s = emit Release s"
  "wakeup s = emit Wakeup s"
  by (simp_all add: acquire_def release_def wakeup_def)

lemma slot_prims [simp]:
  "slot (load b s) = slot s"
  "slot (memmove_buf dst src s) = slot s"
  "slot (poke b k w s) = slot s"
  "slot (bwrite b s) = slot s"
  "slot (brelse b s) = slot s"
  "slot (bpin b s) = slot s"
  "slot (bunpin b s) = slot s"
  "slot (emit e s) = slot s"
  "slot (set_n v s) = slot s"
  "slot (set_block i c s) = slot s"
  by (simp_all add: slot_def fun_eq_iff)

subsection \<open>One iteration of the install loop and of the log-write loop\<close>

lemma install_body_effect:
  assumes "install_body r i s = Inr s'"
  shows "lg s' = lg s"
    and "disk s' = (disk s)(lh_block (hdr s) ! i := payload s (slot s i))"
    and "payload s' x =
           (if x = lh_block (hdr s) ! i then payload s (slot s i) else payload s x)"
    and "pins s' =
           (if r = 0 then (pins s)(lh_block (hdr s) ! i := pins s (lh_block (hdr s) ! i) - 1)
            else pins s)"
    and "trace s' = trace s @ [Bwrite (lh_block (hdr s) ! i) (payload s (slot s i))]"
    and "held s' = held s"
    and "slot s i \<notin> held s" and "lh_block (hdr s) ! i \<notin> held s"
    and "lh_block (hdr s) ! i \<noteq> slot s i"
  using assms
  by (auto simp: install_body_def Let_def bread_def split: if_splits)

lemma install_body_returns:
  "slot s i \<notin> held s \<Longrightarrow> lh_block (hdr s) ! i \<notin> held s \<Longrightarrow>
   lh_block (hdr s) ! i \<noteq> slot s i \<Longrightarrow> \<exists>s'. install_body r i s = Inr s'"
  by (simp add: install_body_def Let_def bread_def)

lemma write_log_body_effect:
  assumes "write_log_body i s = Inr s'"
  shows "lg s' = lg s"
    and "disk s' = (disk s)(slot s i := payload s (lh_block (hdr s) ! i))"
    and "payload s' x =
           (if x = slot s i then payload s (lh_block (hdr s) ! i) else payload s x)"
    and "pins s' = pins s"
    and "trace s' = trace s @ [Bwrite (slot s i) (payload s (lh_block (hdr s) ! i))]"
    and "held s' = held s"
    and "slot s i \<notin> held s" and "lh_block (hdr s) ! i \<notin> held s"
    and "lh_block (hdr s) ! i \<noteq> slot s i"
  using assms
  by (auto simp: write_log_body_def Let_def bread_def split: if_splits)

lemma write_log_body_returns:
  "slot s i \<notin> held s \<Longrightarrow> lh_block (hdr s) ! i \<notin> held s \<Longrightarrow>
   lh_block (hdr s) ! i \<noteq> slot s i \<Longrightarrow> \<exists>s'. write_log_body i s = Inr s'"
  by (simp add: write_log_body_def Let_def bread_def)

declare read_head_from.simps [simp del] write_head_from.simps [simp del]
  install_trans_from.simps [simp del] write_log_from.simps [simp del]
  log_scan.simps [simp del] begin_op_loop.simps [simp del]

subsection \<open>Logged blocks and slots\<close>

lemma logged_frame:
  "lg s' = lg s \<Longrightarrow> logged s' = logged s"
  by (simp add: logged_def)

lemma slot_frame:
  "lg s' = lg s \<Longrightarrow> slot s' = slot s"
  by (simp add: slot_def fun_eq_iff)

lemma slots_frame:
  "lg s' = lg s \<Longrightarrow> slots s' = slots s"
  by (simp add: slots_def slot_def)

lemma nth_logged:
  "int i < lh_n (hdr s) \<Longrightarrow> i < length (lh_block (hdr s)) \<Longrightarrow> lh_block (hdr s) ! i \<in> set (logged s)"
  by (auto simp: logged_def in_set_conv_nth intro!: exI [of _ i])

lemma slot_in_slots:
  "int i < lh_n (hdr s) \<Longrightarrow> slot s i \<in> set (slots s)"
  by (auto simp: slots_def)

lemma home_not_slot:
  "set (logged s) \<inter> set (slots s) = {} \<Longrightarrow> int i < lh_n (hdr s) \<Longrightarrow>
   i < length (lh_block (hdr s)) \<Longrightarrow> int j < lh_n (hdr s) \<Longrightarrow>
   slot s j \<noteq> lh_block (hdr s) ! i"
  using nth_logged [of i s] slot_in_slots [of j s] by auto

lemma logged_bodies:
  "install_body r i s = Inr s' \<Longrightarrow> logged s' = logged s \<and> slots s' = slots s \<and> slot s' = slot s"
  "write_log_body i s = Inr s' \<Longrightarrow> logged s' = logged s \<and> slots s' = slots s \<and> slot s' = slot s"
proof -
  show "logged s' = logged s \<and> slots s' = slots s \<and> slot s' = slot s"
    if "install_body r i s = Inr s'"
    using install_body_effect(1) [OF that] logged_frame slots_frame slot_frame by blast
  show "logged s' = logged s \<and> slots s' = slots s \<and> slot s' = slot s"
    if "write_log_body i s = Inr s'"
    using write_log_body_effect(1) [OF that] logged_frame slots_frame slot_frame by blast
qed

subsection \<open>The install loop\<close>

lemma install_trans_from_step:
  assumes "install_trans_from r tail s = Inr s'" and "int tail < lh_n (hdr s)"
  shows "tail < length (lh_block (hdr s)) \<and>
         (\<exists>s1. install_body r tail s = Inr s1 \<and> install_trans_from r (Suc tail) s1 = Inr s')"
  using assms
  by (subst (asm) install_trans_from.simps) (simp split: if_splits sum.splits)

lemma install_trans_from_stop:
  assumes "install_trans_from r tail s = Inr s'" and "\<not> int tail < lh_n (hdr s)"
  shows "s' = s"
  using assms by (subst (asm) install_trans_from.simps) simp

lemma install_trans_from_returns:
  "nat (lh_n (hdr s)) \<le> length (lh_block (hdr s)) \<Longrightarrow> held s = {} \<Longrightarrow>
   \<forall>i. int i < lh_n (hdr s) \<longrightarrow> lh_block (hdr s) ! i \<noteq> slot s i \<Longrightarrow>
   \<exists>s'. install_trans_from r tail s = Inr s'"
proof (induction r tail s rule: install_trans_from.induct)
  case (1 r tail s)
  show ?case
  proof (cases "int tail < lh_n (hdr s)")
    case True
    with "1.prems" have len: "tail < length (lh_block (hdr s))" by linarith
    from install_body_returns [of s tail r] "1.prems" True
    obtain s1 where b: "install_body r tail s = Inr s1" by auto
    note e = install_body_effect [OF b]
    have sl: "slot s1 = slot s" using logged_bodies(1) [OF b] by simp
    from "1.IH" [OF True len b] "1.prems" e(1,6) sl
    obtain s' where "install_trans_from r (Suc tail) s1 = Inr s'" by auto
    with True len b show ?thesis
      by (subst install_trans_from.simps) simp
  next
    case False
    then show ?thesis by (subst install_trans_from.simps) simp
  qed
qed

lemma install_trans_from_lg:
  "install_trans_from r tail s = Inr s' \<Longrightarrow> lg s' = lg s \<and> held s' = held s"
proof (induction r tail s rule: install_trans_from.induct)
  case (1 r tail s)
  show ?case
  proof (cases "int tail < lh_n (hdr s)")
    case True
    from install_trans_from_step [OF "1.prems" True]
    obtain s1 where len: "tail < length (lh_block (hdr s))"
      and b: "install_body r tail s = Inr s1"
      and run: "install_trans_from r (Suc tail) s1 = Inr s'" by blast
    from "1.IH" [OF True len b run] install_body_effect(1,6) [OF b] show ?thesis by simp
  next
    case False
    with install_trans_from_stop [OF "1.prems"] show ?thesis by simp
  qed
qed

lemma install_trans_from_pins_recovering:
  "install_trans_from r tail s = Inr s' \<Longrightarrow> r \<noteq> 0 \<Longrightarrow> pins s' = pins s"
proof (induction r tail s rule: install_trans_from.induct)
  case (1 r tail s)
  show ?case
  proof (cases "int tail < lh_n (hdr s)")
    case True
    from install_trans_from_step [OF "1.prems"(1) True]
    obtain s1 where len: "tail < length (lh_block (hdr s))"
      and b: "install_body r tail s = Inr s1"
      and run: "install_trans_from r (Suc tail) s1 = Inr s'" by blast
    from "1.IH" [OF True len b run "1.prems"(2)] install_body_effect(4) [OF b] "1.prems"(2)
    show ?thesis by simp
  next
    case False
    with install_trans_from_stop [OF "1.prems"(1)] show ?thesis by simp
  qed
qed

lemma install_trans_from_pins_commit:
  "install_trans_from 0 tail s = Inr s' \<Longrightarrow>
   pins s' x = pins s x - int (count_list (drop tail (logged s)) x)"
proof (induction "0::int" tail s rule: install_trans_from.induct)
  case (1 tail s)
  show ?case
  proof (cases "int tail < lh_n (hdr s)")
    case True
    from install_trans_from_step [OF "1.prems" True]
    obtain s1 where len: "tail < length (lh_block (hdr s))"
      and b: "install_body 0 tail s = Inr s1"
      and run: "install_trans_from 0 (Suc tail) s1 = Inr s'" by blast
    have tl: "tail < length (logged s)" using True len by (simp add: logged_def)
    have nth: "logged s ! tail = lh_block (hdr s) ! tail" using True len by (simp add: logged_def)
    have d: "drop tail (logged s) = lh_block (hdr s) ! tail # drop (Suc tail) (logged s)"
      unfolding nth [symmetric] by (rule Cons_nth_drop_Suc [OF tl, symmetric])
    have l1: "logged s1 = logged s" using logged_bodies(1) [OF b] by simp
    from "1.hyps" [OF True len b run] install_body_effect(4) [OF b] show ?thesis
      by (simp add: d l1)
  next
    case False
    with install_trans_from_stop [OF "1.prems"] have "s' = s" by simp
    moreover have "drop tail (logged s) = []" using False by (simp add: logged_def)
    ultimately show ?thesis by simp
  qed
qed

subsection \<open>Events, writes and replay\<close>

lemma writes_append [simp]: "writes (xs @ ys) = writes xs @ writes ys"
  by (induction xs rule: writes.induct) simp_all

lemma replay_append [simp]: "replay (xs @ ys) d = replay ys (replay xs d)"
  by (induction xs arbitrary: d) auto

lemma replay_other: "x \<notin> fst ` set ws \<Longrightarrow> replay ws d x = d x"
  by (induction ws d rule: replay.induct) auto

lemma replay_map_distinct:
  "distinct (map f xs) \<Longrightarrow> i \<in> set xs \<Longrightarrow> replay (map (\<lambda>i. (f i, g i)) xs) d (f i) = g i"
proof (induction xs arbitrary: d)
  case Nil
  then show ?case by simp
next
  case (Cons a xs)
  show ?case
  proof (cases "i = a")
    case True
    have "f a \<notin> fst ` set (map (\<lambda>i. (f i, g i)) xs)" using Cons.prems(1) by (auto simp: image_iff)
    then show ?thesis using True by (simp add: replay_other)
  next
    case False
    with Cons show ?thesis by simp
  qed
qed

lemma events_since_append [simp]: "trace s' = trace s @ T \<Longrightarrow> events_since s s' = T"
  by (simp add: events_since_def)

lemma events_since_same [simp]: "events_since s s = []"
  by (simp add: events_since_def)

lemma tracked_refl [simp]: "tracked s s"
  by (simp add: tracked_def)

lemma tracked_same: "trace s' = trace s \<Longrightarrow> disk s' = disk s \<Longrightarrow> tracked s s'"
  by (simp add: tracked_def events_since_def)

lemma tracked_trans: "tracked s s1 \<Longrightarrow> tracked s1 s2 \<Longrightarrow> tracked s s2"
  by (auto simp: tracked_def)

lemma tracked_events:
  "tracked s s1 \<Longrightarrow> tracked s1 s2 \<Longrightarrow> events_since s s2 = events_since s s1 @ events_since s1 s2"
  by (auto simp: tracked_def)

lemma tracked_traceD: "tracked s s' \<Longrightarrow> trace s' = trace s @ events_since s s'"
  by (auto simp: tracked_def)

lemma tracked_diskD: "tracked s s' \<Longrightarrow> disk s' = replay (writes (events_since s s')) (disk s)"
  by (simp add: tracked_def)

lemma tracked_prims [simp]:
  "tracked s (load b s)"
  "tracked s (memmove_buf dst src s)"
  "tracked s (poke b k w s)"
  "tracked s (bwrite b s)"
  "tracked s (brelse b s)"
  "tracked s (bpin b s)"
  "tracked s (bunpin b s)"
  "tracked s (set_n v s)"
  "tracked s (set_block i c s)"
  "tracked s (set_outstanding v s)"
  "tracked s (set_committing v s)"
  "writes [e] = [] \<Longrightarrow> tracked s (emit e s)"
  by (simp_all add: tracked_def)

lemma tracked_step: "tracked s1 s2 \<Longrightarrow> tracked s s1 \<Longrightarrow> tracked s s2"
  by (rule tracked_trans)

lemma tracked_bodies:
  "install_body r i s = Inr s' \<Longrightarrow> tracked s s'"
  "write_log_body i s = Inr s' \<Longrightarrow> tracked s s'"
proof -
  show "tracked s s'" if b: "install_body r i s = Inr s'"
    using install_body_effect(2,5) [OF b] by (simp add: tracked_def)
  show "tracked s s'" if b: "write_log_body i s = Inr s'"
    using write_log_body_effect(2,5) [OF b] by (simp add: tracked_def)
qed

lemma install_trans_from_tracked:
  "install_trans_from r tail s = Inr s' \<Longrightarrow> tracked s s'"
proof (induction r tail s rule: install_trans_from.induct)
  case (1 r tail s)
  show ?case
  proof (cases "int tail < lh_n (hdr s)")
    case True
    from install_trans_from_step [OF "1.prems" True]
    obtain s1 where len: "tail < length (lh_block (hdr s))"
      and b: "install_body r tail s = Inr s1"
      and run: "install_trans_from r (Suc tail) s1 = Inr s'" by blast
    from tracked_bodies(1) [OF b] "1.IH" [OF True len b run] show ?thesis
      by (rule tracked_trans)
  next
    case False
    with install_trans_from_stop [OF "1.prems"] show ?thesis by simp
  qed
qed

subsection \<open>Log slots are distinct disk positions\<close>

lemma slot_inj:
  "i < 2 ^ 32 \<Longrightarrow> j < 2 ^ 32 \<Longrightarrow> slot s i = slot s j \<Longrightarrow> i = j"
proof -
  assume i: "i < 2 ^ 32" and j: "j < 2 ^ 32" and eq: "slot s i = slot s j"
  from eq have "(word_of_nat i :: 32 word) = word_of_nat j" by (simp add: slot_def)
  then have "take_bit 32 i = take_bit 32 j" by (simp add: word_of_nat_eq_iff)
  with i j show "i = j" by (simp add: take_bit_nat_eq_self)
qed

lemma slot_not_start:
  "Suc i < 2 ^ 32 \<Longrightarrow> slot s i \<noteq> log_start (lg s)"
proof
  assume i: "Suc i < 2 ^ 32" and eq: "slot s i = log_start (lg s)"
  from eq have "log_start (lg s) + (word_of_nat i + 1) = log_start (lg s) + 0"
    by (simp add: slot_def add.assoc)
  then have "(word_of_nat i :: 32 word) + 1 = 0" by (simp only: add_left_cancel)
  then have "(word_of_nat (Suc i) :: 32 word) = 0" by (simp only: of_nat_Suc add.commute)
  then have "(2 :: nat) ^ LENGTH(32) dvd Suc i" by (simp only: word_of_nat_eq_0_iff)
  then have "(2 :: nat) ^ 32 \<le> Suc i" by (intro dvd_imp_le) simp_all
  with i show False by simp
qed

subsection \<open>The header codec\<close>

lemma write_head_from_returns:
  "nat (lh_n (hdr s)) \<le> length (lh_block (hdr s)) \<Longrightarrow> \<exists>s'. write_head_from buf i s = Inr s'"
proof (induction buf i s rule: write_head_from.induct)
  case (1 buf i s)
  show ?case
  proof (cases "int i < lh_n (hdr s)")
    case True
    with "1.prems" have len: "i < length (lh_block (hdr s))" by linarith
    from "1.IH" [OF True len] "1.prems" True len show ?thesis
      by (subst write_head_from.simps) simp
  next
    case False
    then show ?thesis by (subst write_head_from.simps) simp
  qed
qed

lemma write_head_from_frame:
  "write_head_from buf i s = Inr s' \<Longrightarrow>
   lg s' = lg s \<and> disk s' = disk s \<and> trace s' = trace s \<and> pins s' = pins s \<and>
   held s' = held s"
proof (induction buf i s rule: write_head_from.induct)
  case (1 buf i s)
  from "1.prems" show ?case
    by (subst (asm) write_head_from.simps) (auto split: if_splits dest: "1.IH")
qed

lemma write_head_from_payload:
  "write_head_from buf i s = Inr s' \<Longrightarrow>
   payload s' x k =
     (if x = buf \<and> i < k \<and> int k \<le> lh_n (hdr s) then lh_block (hdr s) ! (k - 1)
      else payload s x k)"
proof (induction buf i s arbitrary: k rule: write_head_from.induct)
  case (1 buf i s)
  show ?case
  proof (cases "int i < lh_n (hdr s)")
    case True
    with "1.prems" have len: "i < length (lh_block (hdr s))"
      by (subst (asm) write_head_from.simps) (simp split: if_splits)
    from "1.prems" True len
    have run: "write_head_from buf (Suc i) (poke buf (Suc i) (lh_block (hdr s) ! i) s) = Inr s'"
      by (subst (asm) write_head_from.simps) simp
    from "1.IH" [OF True len run, of k] True show ?thesis
      by (cases "k = Suc i") auto
  next
    case False
    with "1.prems" have "s' = s" by (subst (asm) write_head_from.simps) simp
    with False show ?thesis by auto
  qed
qed

lemma write_head_returns:
  "nat (lh_n (hdr s)) \<le> length (lh_block (hdr s)) \<Longrightarrow> log_start (lg s) \<notin> held s \<Longrightarrow>
   \<exists>s'. write_head s = Inr s'"
  using write_head_from_returns
    [of "poke (log_start (lg s)) 0 (word_of_int (lh_n (hdr s))) (load (log_start (lg s)) s)"
        "log_start (lg s)" 0]
  by (auto simp: write_head_def Let_def bread_def)

lemma write_head_effect:
  assumes "write_head s = Inr s'"
  shows "lg s' = lg s" and "pins s' = pins s"
    and "payload s' x =
           (if x = log_start (lg s) then encode (hdr s) (payload s (log_start (lg s)))
            else payload s x)"
    and "disk s' = (disk s)(log_start (lg s) := encode (hdr s) (payload s (log_start (lg s))))"
    and "trace s' =
           trace s @ [Bwrite (log_start (lg s)) (encode (hdr s) (payload s (log_start (lg s))))]"
    and "held s' = held s" and "log_start (lg s) \<notin> held s"
proof -
  let ?buf = "log_start (lg s)"
  let ?s2 = "poke ?buf 0 (word_of_int (lh_n (hdr s))) (load ?buf s)"
  from assms obtain s3 where run: "write_head_from ?buf 0 ?s2 = Inr s3"
    and s': "s' = brelse ?buf (bwrite ?buf s3)" and free: "?buf \<notin> held s"
    by (auto simp: write_head_def Let_def bread_def split: sum.splits if_splits)
  note fr = write_head_from_frame [OF run]
  have pl: "payload s3 x = (if x = ?buf then encode (hdr s) (payload s ?buf) else payload s x)" for x
  proof (rule ext)
    fix k
    show "payload s3 x k = (if x = ?buf then encode (hdr s) (payload s ?buf) else payload s x) k"
      using write_head_from_payload [OF run, of x k] by (auto simp: encode_def)
  qed
  show "lg s' = lg s" "pins s' = pins s" using fr by (simp_all add: s')
  show "payload s' x =
           (if x = ?buf then encode (hdr s) (payload s ?buf) else payload s x)"
    using pl [of x] by (simp add: s')
  show "disk s' = (disk s)(?buf := encode (hdr s) (payload s ?buf))"
    using fr pl [of ?buf] by (simp add: s')
  show "trace s' = trace s @ [Bwrite ?buf (encode (hdr s) (payload s ?buf))]"
    using fr pl [of ?buf] by (simp add: s')
  show "held s' = held s" "?buf \<notin> held s" using fr free by (simp_all add: s')
qed

lemma hdr_n_encode:
  "- (2 ^ 31) \<le> lh_n h \<Longrightarrow> lh_n h < 2 ^ 31 \<Longrightarrow> hdr_n (encode h d) = lh_n h"
  by (simp add: hdr_n_def encode_def sint_sbintrunc' signed_take_bit_int_eq_self)

lemma hdr_block_encode:
  "int i < lh_n h \<Longrightarrow> hdr_block (encode h d) i = lh_block h ! i"
  by (simp add: hdr_block_def encode_def)

lemma encode_zero:
  "lh_n h = 0 \<Longrightarrow> encode h d = d(0 := 0)"
  by (auto simp: encode_def fun_eq_iff)

lemma hdr_n_zero_word: "hdr_n d = 0 \<Longrightarrow> d 0 = 0"
  by (simp add: hdr_n_def signed_eq_0_iff)

lemma read_head_from_returns:
  "nat (lh_n (hdr s)) \<le> length (lh_block (hdr s)) \<Longrightarrow> \<exists>s'. read_head_from hb i s = Inr s'"
proof (induction hb i s rule: read_head_from.induct)
  case (1 hb i s)
  show ?case
  proof (cases "int i < lh_n (hdr s)")
    case True
    with "1.prems" have len: "i < length (lh_block (hdr s))" by linarith
    from "1.IH" [OF True len] "1.prems" True len show ?thesis
      by (subst read_head_from.simps) simp
  next
    case False
    then show ?thesis by (subst read_head_from.simps) simp
  qed
qed

lemma read_head_from_frame:
  "read_head_from hb i s = Inr s' \<Longrightarrow>
   disk s' = disk s \<and> trace s' = trace s \<and> pins s' = pins s \<and> cache s' = cache s \<and>
   lh_n (hdr s') = lh_n (hdr s) \<and> log_start (lg s') = log_start (lg s) \<and>
   log_size (lg s') = log_size (lg s) \<and> log_outstanding (lg s') = log_outstanding (lg s) \<and>
   log_committing (lg s') = log_committing (lg s) \<and> log_dev (lg s') = log_dev (lg s) \<and>
   length (lh_block (hdr s')) = length (lh_block (hdr s)) \<and> held s' = held s"
proof (induction hb i s rule: read_head_from.induct)
  case (1 hb i s)
  from "1.prems" show ?case
    by (subst (asm) read_head_from.simps)
       (auto split: if_splits dest: "1.IH" simp: set_block_def)
qed

lemma read_head_from_block:
  "read_head_from hb i s = Inr s' \<Longrightarrow>
   lh_block (hdr s') ! k =
     (if i \<le> k \<and> int k < lh_n (hdr s) then hdr_block hb k else lh_block (hdr s) ! k)"
proof (induction hb i s rule: read_head_from.induct)
  case (1 hb i s)
  show ?case
  proof (cases "int i < lh_n (hdr s)")
    case True
    with "1.prems" have len: "i < length (lh_block (hdr s))"
      by (subst (asm) read_head_from.simps) (simp split: if_splits)
    from "1.prems" True len
    have run: "read_head_from hb (Suc i) (set_block i (hdr_block hb i) s) = Inr s'"
      by (subst (asm) read_head_from.simps) simp
    from "1.IH" [OF True len run] True len show ?thesis
      by (cases "k = i") auto
  next
    case False
    with "1.prems" have "s' = s" by (subst (asm) read_head_from.simps) simp
    with False show ?thesis by auto
  qed
qed

lemma payload_cache_eq: "cache s' = cache s \<Longrightarrow> disk s' = disk s \<Longrightarrow> payload s' = payload s"
  by (rule ext) (simp add: payload_def split: option.splits)

lemma read_head_returns:
  "nat (hdr_n (payload s (log_start (lg s)))) \<le> length (lh_block (hdr s)) \<Longrightarrow>
   log_start (lg s) \<notin> held s \<Longrightarrow> \<exists>s'. read_head s = Inr s'"
  using read_head_from_returns
    [of "set_n (hdr_n (payload s (log_start (lg s)))) (load (log_start (lg s)) s)"
        "payload s (log_start (lg s))" 0]
  by (auto simp: read_head_def Let_def bread_def)

lemma read_head_effect:
  assumes "read_head s = Inr s'"
  shows "disk s' = disk s" and "trace s' = trace s" and "pins s' = pins s"
    and "payload s' = payload s"
    and "lh_n (hdr s') = hdr_n (payload s (log_start (lg s)))"
    and "log_start (lg s') = log_start (lg s)"
    and "log_size (lg s') = log_size (lg s)"
    and "log_outstanding (lg s') = log_outstanding (lg s)"
    and "log_committing (lg s') = log_committing (lg s)"
    and "length (lh_block (hdr s')) = length (lh_block (hdr s))"
    and "int k < hdr_n (payload s (log_start (lg s))) \<Longrightarrow>
         lh_block (hdr s') ! k = hdr_block (payload s (log_start (lg s))) k"
    and "held s' = held s" and "log_start (lg s) \<notin> held s"
proof -
  let ?buf = "log_start (lg s)"
  let ?hb = "payload s ?buf"
  let ?s2 = "set_n (hdr_n ?hb) (load ?buf s)"
  from assms obtain s3 where run: "read_head_from ?hb 0 ?s2 = Inr s3"
    and s': "s' = brelse ?buf s3" and free: "?buf \<notin> held s"
    by (auto simp: read_head_def Let_def bread_def split: sum.splits if_splits)
  note fr = read_head_from_frame [OF run]
  show "disk s' = disk s" "trace s' = trace s" "pins s' = pins s"
    "lh_n (hdr s') = hdr_n ?hb" "log_start (lg s') = log_start (lg s)"
    "log_size (lg s') = log_size (lg s)" "log_outstanding (lg s') = log_outstanding (lg s)"
    "log_committing (lg s') = log_committing (lg s)"
    "length (lh_block (hdr s')) = length (lh_block (hdr s))"
    using fr by (simp_all add: s' brelse_def)
  have "payload s3 = payload ?s2"
    using fr by (intro payload_cache_eq) simp_all
  then show "payload s' = payload s"
    by (simp add: s' fun_eq_iff)
  show "lh_block (hdr s') ! k = hdr_block ?hb k" if "int k < hdr_n ?hb"
    using read_head_from_block [OF run, of k] that by (simp add: s' brelse_def)
  show "held s' = held s" "?buf \<notin> held s" using fr free by (simp_all add: s')
qed

subsection \<open>Recovery\<close>

lemma install_trans_returns:
  "nat (lh_n (hdr s)) \<le> length (lh_block (hdr s)) \<Longrightarrow> held s = {} \<Longrightarrow>
   \<forall>i. int i < lh_n (hdr s) \<longrightarrow> lh_block (hdr s) ! i \<noteq> slot s i \<Longrightarrow>
   \<exists>s'. install_trans r s = Inr s'"
  by (simp add: install_trans_def install_trans_from_returns)

lemma slot_start: "log_start (lg s') = log_start (lg s) \<Longrightarrow> slot s' = slot s"
  by (simp add: slot_def fun_eq_iff)

lemma recover_from_log_returns:
  assumes fits: "nat (hdr_n (payload s (log_start (lg s)))) \<le> length (lh_block (hdr s))"
    and free: "held s = {}"
    and own: "\<forall>i<nat (hdr_n (payload s (log_start (lg s)))).
                hdr_block (payload s (log_start (lg s))) i \<noteq> slot s i"
  shows "\<exists>s'. recover_from_log s = Inr s'"
proof -
  from read_head_returns [OF fits] free obtain a where a: "read_head s = Inr a" by auto
  note ra = read_head_effect [OF a]
  from fits ra(5,10) have fa: "nat (lh_n (hdr a)) \<le> length (lh_block (hdr a))" by simp
  have ha: "held a = {}" using ra(12) free by simp
  have sl: "slot a = slot s" using ra(6) by (rule slot_start)
  have "\<forall>i. int i < lh_n (hdr a) \<longrightarrow> lh_block (hdr a) ! i \<noteq> slot a i"
  proof (intro allI impI)
    fix i assume "int i < lh_n (hdr a)"
    then have i: "int i < hdr_n (payload s (log_start (lg s)))" using ra(5) by simp
    then have "i < nat (hdr_n (payload s (log_start (lg s))))" by linarith
    with own ra(11) [OF i] sl show "lh_block (hdr a) ! i \<noteq> slot a i" by simp
  qed
  from install_trans_returns [OF fa ha this] obtain b where b: "install_trans 1 a = Inr b" ..
  then have "held b = held a" by (simp add: install_trans_def install_trans_from_lg)
  with ha have "log_start (lg (set_n 0 b)) \<notin> held (set_n 0 b)" by simp
  moreover have "nat (lh_n (hdr (set_n 0 b))) \<le> length (lh_block (hdr (set_n 0 b)))" by simp
  ultimately obtain c where "write_head (set_n 0 b) = Inr c"
    using write_head_returns [of "set_n 0 b"] by blast
  with a b show ?thesis by (simp add: recover_from_log_def)
qed

lemma recover_from_log_header:
  assumes "recover_from_log s = Inr s1"
  shows "lh_n (hdr s1) = 0"
    and "payload s1 (log_start (lg s1)) = disk s1 (log_start (lg s1))"
    and "disk s1 (log_start (lg s1)) 0 = 0"
    and "log_start (lg s1) \<notin> held s1"
proof -
  from assms obtain b where w: "write_head (set_n 0 b) = Inr s1"
    by (auto simp: recover_from_log_def split: sum.splits)
  note we = write_head_effect [OF w]
  show "lh_n (hdr s1) = 0" using we(1) by simp
  have st: "log_start (lg s1) = log_start (lg b)" using we(1) by simp
  show "payload s1 (log_start (lg s1)) = disk s1 (log_start (lg s1))"
    using we(3) [of "log_start (lg b)"] we(4) by (simp add: st)
  show "disk s1 (log_start (lg s1)) 0 = 0"
    using we(4) by (simp add: st encode_def)
  show "log_start (lg s1) \<notin> held s1" using we(6,7) by (simp add: st)
qed

lemma recover_from_log_start:
  assumes "recover_from_log s = Inr s1"
  shows "log_start (lg s1) = log_start (lg s)"
proof -
  from assms obtain a b where a: "read_head s = Inr a" and b: "install_trans 1 a = Inr b"
    and w: "write_head (set_n 0 b) = Inr s1"
    by (auto simp: recover_from_log_def split: sum.splits)
  from b have "lg b = lg a" by (simp add: install_trans_def install_trans_from_lg)
  with read_head_effect(6) [OF a] write_head_effect(1) [OF w] show ?thesis by simp
qed

text \<open>
  C7. Recovery is idempotent. From every machine state on which the recovery engine
  returns, a second run returns too and leaves the whole disk as the first run left it:
  the header it reads has count 0, and its only disk write puts the header block back as
  it was, so nothing is installed. The first run returns when the thread holds no buffer,
  the count in the on-disk header fits \<^verbatim>\<open>log.lh.block\<close> (the C code would write outside
  the array otherwise), and no listed block is its own log slot (the install loop would
  wait for ever for the buffer it holds).
\<close>

theorem recovery_idempotent:
  "(held s = {} \<and>
    nat (hdr_n (payload s (log_start (lg s)))) \<le> length (lh_block (hdr s)) \<and>
    (\<forall>i<nat (hdr_n (payload s (log_start (lg s)))).
        hdr_block (payload s (log_start (lg s))) i \<noteq> slot s i) \<longrightarrow>
      (\<exists>s1. recover_from_log s = Inr s1)) \<and>
   (\<forall>s1. recover_from_log s = Inr s1 \<longrightarrow>
      (\<exists>s2. recover_from_log s1 = Inr s2 \<and> disk s2 = disk s1 \<and>
            hdr_n (payload s1 (log_start (lg s1))) = 0 \<and>
            writes (events_since s1 s2) =
              [(log_start (lg s1), disk s1 (log_start (lg s1)))]))"
proof (intro conjI impI allI)
  assume "held s = {} \<and>
    nat (hdr_n (payload s (log_start (lg s)))) \<le> length (lh_block (hdr s)) \<and>
    (\<forall>i<nat (hdr_n (payload s (log_start (lg s)))).
        hdr_block (payload s (log_start (lg s))) i \<noteq> slot s i)"
  then show "\<exists>s1. recover_from_log s = Inr s1" by (intro recover_from_log_returns) simp_all
next
  fix s1
  assume first: "recover_from_log s = Inr s1"
  let ?st = "log_start (lg s1)"
  let ?H = "disk s1 ?st"
  note h = recover_from_log_header [OF first]
  have count0: "hdr_n (payload s1 ?st) = 0" using h(2,3) by (simp add: hdr_n_def)
  then have "nat (hdr_n (payload s1 ?st)) \<le> length (lh_block (hdr s1))" by simp
  from read_head_returns [OF this h(4)] obtain a where a: "read_head s1 = Inr a" ..
  note ra = read_head_effect [OF a]
  have na: "lh_n (hdr a) = 0" using ra(5) count0 by simp
  have b: "install_trans 1 a = Inr a"
    by (simp add: install_trans_def install_trans_from.simps [of 1 0 a] na)
  have "nat (lh_n (hdr (set_n 0 a))) \<le> length (lh_block (hdr (set_n 0 a)))" by simp
  moreover have "log_start (lg (set_n 0 a)) \<notin> held (set_n 0 a)" using ra(6,12) h(4) by simp
  ultimately obtain s2 where w: "write_head (set_n 0 a) = Inr s2"
    using write_head_returns [of "set_n 0 a"] by blast
  note we = write_head_effect [OF w]
  have second: "recover_from_log s1 = Inr s2"
    using a b w by (simp add: recover_from_log_def)
  have enc: "encode (hdr (set_n 0 a)) (payload (set_n 0 a) ?st) = ?H"
    using h(2,3) ra(4) by (simp add: encode_zero fun_upd_idem)
  have "disk s2 = disk s1"
    using we(4) enc ra(1,6) by simp
  moreover have "writes (events_since s1 s2) = [(?st, ?H)]"
    using we(5) enc ra(2,6) by simp
  ultimately show "\<exists>s2. recover_from_log s1 = Inr s2 \<and> disk s2 = disk s1 \<and>
            hdr_n (payload s1 ?st) = 0 \<and> writes (events_since s1 s2) = [(?st, ?H)]"
    using second count0 by blast
qed

lemma scenario_facts:
  "held (mounted P0 scenario_disk) = {}"
  "log_start (lg (mounted P0 scenario_disk)) = 2"
  "payload (mounted P0 scenario_disk) 2 = (\<lambda>k. 0)(0 := 2, 1 := 5, 2 := 9)"
  "length (lh_block (hdr (mounted P0 scenario_disk))) = 4"
  "slot (mounted P0 scenario_disk) 0 = 3" "slot (mounted P0 scenario_disk) (Suc 0) = 4"
  by (simp_all add: mounted_def boot_def P0_def scenario_disk_def payload_def slot_def)

theorem recovery_idempotent_witness:
  "held (mounted P0 scenario_disk) = {} \<and>
   (\<exists>s1 s2. recover_from_log (mounted P0 scenario_disk) = Inr s1 \<and>
           recover_from_log s1 = Inr s2 \<and> disk s2 = disk s1 \<and>
           writes (events_since s1 s2) = [(2, disk s1 2)])"
proof -
  let ?s = "mounted P0 scenario_disk"
  have n: "nat (hdr_n (payload ?s (log_start (lg ?s)))) = 2"
    by (simp add: scenario_facts hdr_n_def)
  have fits: "nat (hdr_n (payload ?s (log_start (lg ?s)))) \<le> length (lh_block (hdr ?s))"
    by (simp add: scenario_facts hdr_n_def)
  have own: "\<forall>i<nat (hdr_n (payload ?s (log_start (lg ?s)))).
               hdr_block (payload ?s (log_start (lg ?s))) i \<noteq> slot ?s i"
    unfolding n
  proof (intro allI impI)
    fix i :: nat
    assume "i < 2"
    then consider "i = 0" | "i = Suc 0" by linarith
    then show "hdr_block (payload ?s (log_start (lg ?s))) i \<noteq> slot ?s i"
      by cases (simp_all add: scenario_facts hdr_block_def)
  qed
  from recovery_idempotent [of ?s] fits own scenario_facts(1)
  obtain s1 where s1: "recover_from_log ?s = Inr s1" by blast
  with recovery_idempotent [of ?s]
  obtain s2 where s2: "recover_from_log s1 = Inr s2" "disk s2 = disk s1"
    "writes (events_since s1 s2) = [(log_start (lg s1), disk s1 (log_start (lg s1)))]"
    by blast
  have "log_start (lg s1) = 2"
    using recover_from_log_start [OF s1] by (simp add: scenario_facts)
  with s1 s2 scenario_facts(1) show ?thesis by auto
qed

subsection \<open>log_write\<close>

lemma log_scan_spec:
  "nat (lh_n (hdr s)) \<le> length (lh_block (hdr s)) \<Longrightarrow> i \<le> nat (lh_n (hdr s)) \<Longrightarrow>
   \<exists>j. log_scan b i s = Inr j \<and> i \<le> j \<and> j \<le> nat (lh_n (hdr s)) \<and>
       (\<forall>k. i \<le> k \<and> k < j \<longrightarrow> lh_block (hdr s) ! k \<noteq> b) \<and>
       (j < nat (lh_n (hdr s)) \<longrightarrow> lh_block (hdr s) ! j = b)"
proof (induction b i s rule: log_scan.induct)
  case (1 b i s)
  show ?case
  proof (cases "int i < lh_n (hdr s)")
    case True
    with "1.prems" have len: "i < length (lh_block (hdr s))" by linarith
    show ?thesis
    proof (cases "lh_block (hdr s) ! i = b")
      case hit: True
      with True len show ?thesis
        by (subst log_scan.simps) auto
    next
      case miss: False
      from True have "Suc i \<le> nat (lh_n (hdr s))" by linarith
      from "1.IH" [OF True len miss "1.prems"(1) this]
      obtain j where j: "log_scan b (Suc i) s = Inr j" "Suc i \<le> j" "j \<le> nat (lh_n (hdr s))"
        "\<forall>k. Suc i \<le> k \<and> k < j \<longrightarrow> lh_block (hdr s) ! k \<noteq> b"
        "j < nat (lh_n (hdr s)) \<longrightarrow> lh_block (hdr s) ! j = b"
        by blast
      have "\<forall>k. i \<le> k \<and> k < j \<longrightarrow> lh_block (hdr s) ! k \<noteq> b"
      proof (intro allI impI)
        fix k assume "i \<le> k \<and> k < j"
        then show "lh_block (hdr s) ! k \<noteq> b"
          using j(4) miss by (cases "k = i") auto
      qed
      with j True len miss show ?thesis
        by (subst log_scan.simps) auto
    qed
  next
    case False
    with "1.prems" show ?thesis
      by (subst log_scan.simps) auto
  qed
qed

lemma log_scan_logged:
  assumes "nat (lh_n (hdr s)) \<le> length (lh_block (hdr s))"
  shows "\<exists>j. log_scan b 0 s = Inr j \<and> j \<le> nat (lh_n (hdr s)) \<and>
            (b \<in> set (logged s) \<longleftrightarrow> j < nat (lh_n (hdr s))) \<and>
            (j < nat (lh_n (hdr s)) \<longrightarrow> lh_block (hdr s) ! j = b)"
proof -
  from log_scan_spec [OF assms, of 0 b]
  obtain j where j: "log_scan b 0 s = Inr j" "j \<le> nat (lh_n (hdr s))"
    "\<forall>k. k < j \<longrightarrow> lh_block (hdr s) ! k \<noteq> b"
    "j < nat (lh_n (hdr s)) \<longrightarrow> lh_block (hdr s) ! j = b"
    by auto
  have "b \<in> set (logged s) \<longleftrightarrow> j < nat (lh_n (hdr s))"
  proof
    assume "b \<in> set (logged s)"
    then obtain k where "k < nat (lh_n (hdr s))" "lh_block (hdr s) ! k = b"
      using assms by (auto simp: logged_def in_set_conv_nth)
    with j(3) have "\<not> k < j" by auto
    with \<open>k < nat (lh_n (hdr s))\<close> show "j < nat (lh_n (hdr s))" by linarith
  next
    assume lt: "j < nat (lh_n (hdr s))"
    with j(4) have "lh_block (hdr s) ! j = b" by simp
    moreover have "j < length (logged s)" using lt assms by (simp add: logged_def)
    moreover have "logged s ! j = lh_block (hdr s) ! j" using lt by (simp add: logged_def)
    ultimately show "b \<in> set (logged s)" by (metis nth_mem)
  qed
  with j(1,2,4) show ?thesis by (intro exI [of _ j]) simp
qed

lemma log_write_panics:
  "lh_n (hdr s) \<ge> LOGSIZE P \<or> lh_n (hdr s) \<ge> log_size (lg s) - 1 \<Longrightarrow>
   log_write P b s = Inl (Panic ''too big a transaction'')"
  "lh_n (hdr s) < LOGSIZE P \<Longrightarrow> lh_n (hdr s) < log_size (lg s) - 1 \<Longrightarrow>
   log_outstanding (lg s) < 1 \<Longrightarrow>
   log_write P b s = Inl (Panic ''log_write outside of trans'')"
  by (simp_all add: log_write_def Let_def)

lemma log_ok_fits: "log_ok P s \<Longrightarrow> nat (lh_n (hdr s)) \<le> length (lh_block (hdr s))"
  by (auto simp: log_ok_def)

lemma log_scan_lg: "lg s' = lg s \<Longrightarrow> log_scan b i s' = log_scan b i s"
proof (induction b i s rule: log_scan.induct)
  case (1 b i s)
  show ?case
    using "1.prems" "1.IH"
    by (subst log_scan.simps, subst (2) log_scan.simps) auto
qed

lemma log_write_effect:
  assumes ok: "log_ok P s" and run: "log_write P b s = Inr s'"
  shows "lh_n (hdr s) < LOGSIZE P" and "lh_n (hdr s) < log_size (lg s) - 1"
    and "1 \<le> log_outstanding (lg s)"
    and "b \<in> set (logged s) \<Longrightarrow> lg s' = lg s \<and> pins s' = pins s"
    and "b \<notin> set (logged s) \<Longrightarrow>
         lg s' = (lg s)\<lparr>log_lh := \<lparr>lh_n = lh_n (hdr s) + 1,
                                    lh_block = (lh_block (hdr s))[nat (lh_n (hdr s)) := b]\<rparr>\<rparr> \<and>
         pins s' = (pins s)(b := pins s b + 1)"
    and "disk s' = disk s" and "payload s' x = payload s x"
    and "trace s' = trace s @ [Acquire, Release]"
    and "held s' = held s"
proof -
  from run show g: "lh_n (hdr s) < LOGSIZE P" "lh_n (hdr s) < log_size (lg s) - 1"
    "1 \<le> log_outstanding (lg s)"
    by (auto simp: log_write_def Let_def split: if_splits)
  note fits = log_ok_fits [OF ok]
  from log_scan_logged [OF fits, of b]
  obtain j where j: "log_scan b 0 s = Inr j" "j \<le> nat (lh_n (hdr s))"
    "b \<in> set (logged s) \<longleftrightarrow> j < nat (lh_n (hdr s))"
    "j < nat (lh_n (hdr s)) \<longrightarrow> lh_block (hdr s) ! j = b" by (elim exE conjE)
  have scan: "log_scan b 0 (emit Acquire s) = Inr j"
    using j(1) log_scan_lg [of "emit Acquire s" s b 0] by simp
  have len: "j < length (lh_block (hdr s))"
    using j(2) g(1) ok by (auto simp: log_ok_def)
  have n0: "0 \<le> lh_n (hdr s)" using ok by (simp add: log_ok_def)
  let ?s2 = "set_block j b (emit Acquire s)"
  have s': "s' = emit Release (if int j = lh_n (hdr s)
                 then set_n (lh_n (hdr s) + 1) (bpin b ?s2) else ?s2)"
    using run g scan len by (auto simp: log_write_def Let_def)
  show "disk s' = disk s" "payload s' x = payload s x" "trace s' = trace s @ [Acquire, Release]"
    "held s' = held s"
    by (simp_all add: s')
  show "lg s' = lg s \<and> pins s' = pins s" if "b \<in> set (logged s)"
  proof -
    from that j(3) have lt: "j < nat (lh_n (hdr s))" by simp
    with j(4) have "lh_block (hdr s) ! j = b" by simp
    then have "(lh_block (hdr s))[j := b] = lh_block (hdr s)" by (metis list_update_id)
    moreover from lt have "int j \<noteq> lh_n (hdr s)" by linarith
    ultimately show ?thesis by (simp add: s')
  qed
  show "lg s' = (lg s)\<lparr>log_lh := \<lparr>lh_n = lh_n (hdr s) + 1,
                                    lh_block = (lh_block (hdr s))[nat (lh_n (hdr s)) := b]\<rparr>\<rparr> \<and>
         pins s' = (pins s)(b := pins s b + 1)" if "b \<notin> set (logged s)"
  proof -
    from that j(2,3) have "j = nat (lh_n (hdr s))" by simp
    with n0 show ?thesis by (simp add: s')
  qed
qed

lemma log_write_returns:
  assumes ok: "log_ok P s" and "lh_n (hdr s) < LOGSIZE P" and "lh_n (hdr s) < log_size (lg s) - 1"
    and "1 \<le> log_outstanding (lg s)"
  shows "\<exists>s'. log_write P b s = Inr s'"
proof -
  note fits = log_ok_fits [OF ok]
  from log_scan_logged [OF fits, of b]
  obtain j where j: "log_scan b 0 s = Inr j" "j \<le> nat (lh_n (hdr s))" by (elim exE conjE)
  have scan: "log_scan b 0 (emit Acquire s) = Inr j"
    using j(1) log_scan_lg [of "emit Acquire s" s b 0] by simp
  have len: "j < length (lh_block (hdr s))"
    using j(2) assms by (auto simp: log_ok_def)
  show ?thesis using assms scan len by (simp add: log_write_def Let_def)
qed

lemma log_write_logged:
  assumes ok: "log_ok P s" and run: "log_write P b s = Inr s'"
  shows "logged s' = (if b \<in> set (logged s) then logged s else logged s @ [b])"
    and "log_ok P s'"
proof -
  note e = log_write_effect [OF ok run]
  have len: "nat (lh_n (hdr s)) < length (lh_block (hdr s))"
    using ok e(1) by (auto simp: log_ok_def)
  have n0: "0 \<le> lh_n (hdr s)" using ok by (simp add: log_ok_def)
  show "logged s' = (if b \<in> set (logged s) then logged s else logged s @ [b])"
  proof (cases "b \<in> set (logged s)")
    case True
    with e(4) show ?thesis by (simp add: logged_def)
  next
    case False
    have "nat (lh_n (hdr s) + 1) = Suc (nat (lh_n (hdr s)))" using n0 by simp
    with False e(5) len show ?thesis
      by (simp add: logged_def take_Suc_conv_app_nth)
  qed
  show "log_ok P s'"
    using ok e(1) e(4) e(5) by (cases "b \<in> set (logged s)") (auto simp: log_ok_def)
qed

subsection \<open>The log-write loop\<close>

lemma write_log_from_step:
  assumes "write_log_from tail s = Inr s'" and "int tail < lh_n (hdr s)"
  shows "tail < length (lh_block (hdr s)) \<and>
         (\<exists>s1. write_log_body tail s = Inr s1 \<and> write_log_from (Suc tail) s1 = Inr s')"
  using assms
  by (subst (asm) write_log_from.simps) (simp split: if_splits sum.splits)

lemma write_log_from_stop:
  assumes "write_log_from tail s = Inr s'" and "\<not> int tail < lh_n (hdr s)"
  shows "s' = s"
  using assms by (subst (asm) write_log_from.simps) simp

lemma write_log_from_returns:
  "nat (lh_n (hdr s)) \<le> length (lh_block (hdr s)) \<Longrightarrow> held s = {} \<Longrightarrow>
   \<forall>i. int i < lh_n (hdr s) \<longrightarrow> lh_block (hdr s) ! i \<noteq> slot s i \<Longrightarrow>
   \<exists>s'. write_log_from tail s = Inr s'"
proof (induction tail s rule: write_log_from.induct)
  case (1 tail s)
  show ?case
  proof (cases "int tail < lh_n (hdr s)")
    case True
    with "1.prems" have len: "tail < length (lh_block (hdr s))" by linarith
    from write_log_body_returns [of s tail] "1.prems" True
    obtain s1 where b: "write_log_body tail s = Inr s1" by auto
    note e = write_log_body_effect [OF b]
    have sl: "slot s1 = slot s" using logged_bodies(2) [OF b] by simp
    from "1.IH" [OF True len b] "1.prems" e(1,6) sl
    obtain s' where "write_log_from (Suc tail) s1 = Inr s'" by auto
    with True len b show ?thesis
      by (subst write_log_from.simps) simp
  next
    case False
    then show ?thesis by (subst write_log_from.simps) simp
  qed
qed

lemma write_log_from_frame:
  "write_log_from tail s = Inr s' \<Longrightarrow> lg s' = lg s \<and> pins s' = pins s \<and> held s' = held s"
proof (induction tail s rule: write_log_from.induct)
  case (1 tail s)
  show ?case
  proof (cases "int tail < lh_n (hdr s)")
    case True
    from write_log_from_step [OF "1.prems" True]
    obtain s1 where len: "tail < length (lh_block (hdr s))"
      and b: "write_log_body tail s = Inr s1"
      and run: "write_log_from (Suc tail) s1 = Inr s'" by blast
    from "1.IH" [OF True len b run] write_log_body_effect(1,4,6) [OF b] show ?thesis by simp
  next
    case False
    with write_log_from_stop [OF "1.prems"] show ?thesis by simp
  qed
qed

lemma write_log_from_tracked:
  "write_log_from tail s = Inr s' \<Longrightarrow> tracked s s'"
proof (induction tail s rule: write_log_from.induct)
  case (1 tail s)
  show ?case
  proof (cases "int tail < lh_n (hdr s)")
    case True
    from write_log_from_step [OF "1.prems" True]
    obtain s1 where len: "tail < length (lh_block (hdr s))"
      and b: "write_log_body tail s = Inr s1"
      and run: "write_log_from (Suc tail) s1 = Inr s'" by blast
    from tracked_bodies(2) [OF b] "1.IH" [OF True len b run] show ?thesis
      by (rule tracked_trans)
  next
    case False
    with write_log_from_stop [OF "1.prems"] show ?thesis by simp
  qed
qed

lemma write_log_from_payload_other:
  "write_log_from tail s = Inr s' \<Longrightarrow>
   (\<forall>i. tail \<le> i \<and> int i < lh_n (hdr s) \<longrightarrow> x \<noteq> slot s i) \<Longrightarrow>
   payload s' x = payload s x"
proof (induction tail s rule: write_log_from.induct)
  case (1 tail s)
  show ?case
  proof (cases "int tail < lh_n (hdr s)")
    case True
    from write_log_from_step [OF "1.prems"(1) True]
    obtain s1 where len: "tail < length (lh_block (hdr s))"
      and b: "write_log_body tail s = Inr s1"
      and run: "write_log_from (Suc tail) s1 = Inr s'" by blast
    note e = write_log_body_effect [OF b]
    have sl: "slot s1 = slot s" using logged_bodies(2) [OF b] by simp
    have "\<forall>i. Suc tail \<le> i \<and> int i < lh_n (hdr s1) \<longrightarrow> x \<noteq> slot s1 i"
      using "1.prems"(2) by (simp add: e(1) sl)
    from "1.IH" [OF True len b run this] have "payload s' x = payload s1 x" .
    also have "\<dots> = payload s x" using "1.prems"(2) True by (simp add: e(3))
    finally show ?thesis .
  next
    case False
    with write_log_from_stop [OF "1.prems"(1)] show ?thesis by simp
  qed
qed

lemma write_log_from_targets:
  "write_log_from tail s = Inr s' \<Longrightarrow>
   map fst (writes (events_since s s')) = map (slot s) [tail..<nat (lh_n (hdr s))]"
proof (induction tail s rule: write_log_from.induct)
  case (1 tail s)
  show ?case
  proof (cases "int tail < lh_n (hdr s)")
    case True
    from write_log_from_step [OF "1.prems"(1) True]
    obtain s1 where len: "tail < length (lh_block (hdr s))"
      and b: "write_log_body tail s = Inr s1"
      and run: "write_log_from (Suc tail) s1 = Inr s'" by blast
    note e = write_log_body_effect [OF b]
    have sl: "slot s1 = slot s" using logged_bodies(2) [OF b] by simp
    have ev: "events_since s s' = events_since s s1 @ events_since s1 s'"
      by (rule tracked_events) (simp_all add: write_log_from_tracked [OF run] tracked_bodies(2) [OF b])
    have e1: "events_since s s1 = [Bwrite (slot s tail) (payload s (lh_block (hdr s) ! tail))]"
      using e(5) by simp
    have up: "[tail..<nat (lh_n (hdr s))] = tail # [Suc tail..<nat (lh_n (hdr s))]"
      using True by (intro upt_conv_Cons) linarith
    from "1.IH" [OF True len b run] show ?thesis
      by (simp add: ev up e1 e(1) sl)
  next
    case False
    with write_log_from_stop [OF "1.prems"(1)] show ?thesis by simp
  qed
qed

lemma write_log_from_trace:
  "write_log_from tail s = Inr s' \<Longrightarrow> set (logged s) \<inter> set (slots s) = {} \<Longrightarrow>
   nat (lh_n (hdr s)) \<le> length (lh_block (hdr s)) \<Longrightarrow>
   trace s' = trace s @
     map (\<lambda>i. Bwrite (slot s i) (payload s (lh_block (hdr s) ! i))) [tail..<nat (lh_n (hdr s))]"
proof (induction tail s rule: write_log_from.induct)
  case (1 tail s)
  show ?case
  proof (cases "int tail < lh_n (hdr s)")
    case True
    from write_log_from_step [OF "1.prems"(1) True]
    obtain s1 where len: "tail < length (lh_block (hdr s))"
      and b: "write_log_body tail s = Inr s1"
      and run: "write_log_from (Suc tail) s1 = Inr s'" by blast
    note e = write_log_body_effect [OF b]
    note fr = logged_bodies(2) [OF b]
    have up: "[tail..<nat (lh_n (hdr s))] = tail # [Suc tail..<nat (lh_n (hdr s))]"
      using True by (intro upt_conv_Cons) linarith
    have same: "payload s1 (lh_block (hdr s) ! i) = payload s (lh_block (hdr s) ! i)"
      if "i \<in> set [Suc tail..<nat (lh_n (hdr s))]" for i
    proof -
      from that have i: "int i < lh_n (hdr s)" by auto
      with "1.prems"(3) have "i < length (lh_block (hdr s))" by linarith
      from home_not_slot [OF "1.prems"(2) i this True] show ?thesis by (simp add: e(3))
    qed
    have p2: "set (logged s1) \<inter> set (slots s1) = {}" using "1.prems"(2) fr by simp
    have p3: "nat (lh_n (hdr s1)) \<le> length (lh_block (hdr s1))" using "1.prems"(3) by (simp add: e(1))
    have "trace s' = trace s1 @
      map (\<lambda>i. Bwrite (slot s i) (payload s1 (lh_block (hdr s) ! i))) [Suc tail..<nat (lh_n (hdr s))]"
      using "1.IH" [OF True len b run p2 p3] fr by (simp add: e(1))
    also have "map (\<lambda>i. Bwrite (slot s i) (payload s1 (lh_block (hdr s) ! i))) [Suc tail..<nat (lh_n (hdr s))]
      = map (\<lambda>i. Bwrite (slot s i) (payload s (lh_block (hdr s) ! i))) [Suc tail..<nat (lh_n (hdr s))]"
      by (rule map_cong [OF refl]) (simp only: same)
    finally show ?thesis by (simp add: up e(5))
  next
    case False
    with write_log_from_stop [OF "1.prems"(1)] show ?thesis by simp
  qed
qed

lemma write_log_from_payload_slot:
  "write_log_from tail s = Inr s' \<Longrightarrow> set (logged s) \<inter> set (slots s) = {} \<Longrightarrow>
   nat (lh_n (hdr s)) \<le> length (lh_block (hdr s)) \<Longrightarrow> nat (lh_n (hdr s)) \<le> 2 ^ 32 \<Longrightarrow>
   tail \<le> j \<Longrightarrow> int j < lh_n (hdr s) \<Longrightarrow>
   payload s' (slot s j) = payload s (lh_block (hdr s) ! j)"
proof (induction tail s rule: write_log_from.induct)
  case (1 tail s)
  from "1.prems"(5,6) have True: "int tail < lh_n (hdr s)" by linarith
  from write_log_from_step [OF "1.prems"(1) True]
  obtain s1 where len: "tail < length (lh_block (hdr s))"
    and b: "write_log_body tail s = Inr s1"
    and run: "write_log_from (Suc tail) s1 = Inr s'" by blast
  note e = write_log_body_effect [OF b]
  note fr = logged_bodies(2) [OF b]
  have jlen: "j < length (lh_block (hdr s))" using "1.prems"(3,6) by linarith
  show ?case
  proof (cases "j = tail")
    case True
    have "payload s' (slot s j) = payload s1 (slot s j)"
    proof (rule write_log_from_payload_other [OF run], intro allI impI)
      fix i assume "Suc tail \<le> i \<and> int i < lh_n (hdr s1)"
      then have "i \<noteq> j" "i < 2 ^ 32" "j < 2 ^ 32" using True "1.prems"(4,6) by (auto simp: e(1))
      then show "slot s j \<noteq> slot s1 i" using slot_inj [of j i s] fr by auto
    qed
    then show ?thesis using True by (simp add: e(3))
  next
    case False
    with "1.prems"(5) have j': "Suc tail \<le> j" by simp
    have p2: "set (logged s1) \<inter> set (slots s1) = {}" using "1.prems"(2) fr by simp
    have p3: "nat (lh_n (hdr s1)) \<le> length (lh_block (hdr s1))" using "1.prems"(3) by (simp add: e(1))
    have p4: "nat (lh_n (hdr s1)) \<le> 2 ^ 32" using "1.prems"(4) by (simp add: e(1))
    have p6: "int j < lh_n (hdr s1)" using "1.prems"(6) by (simp add: e(1))
    from "1.IH" [OF \<open>int tail < lh_n (hdr s)\<close> len b run p2 p3 p4 j' p6] fr
    have "payload s' (slot s j) = payload s1 (lh_block (hdr s) ! j)" by (simp add: e(1))
    also have "\<dots> = payload s (lh_block (hdr s) ! j)"
      using home_not_slot [OF "1.prems"(2) "1.prems"(6) jlen \<open>int tail < lh_n (hdr s)\<close>]
      by (simp add: e(3))
    finally show ?thesis .
  qed
qed

subsection \<open>The install loop, in closed form\<close>

lemma install_trans_from_payload_other:
  "install_trans_from r tail s = Inr s' \<Longrightarrow>
   (\<forall>i. tail \<le> i \<and> int i < lh_n (hdr s) \<longrightarrow> x \<noteq> lh_block (hdr s) ! i) \<Longrightarrow>
   payload s' x = payload s x"
proof (induction r tail s rule: install_trans_from.induct)
  case (1 r tail s)
  show ?case
  proof (cases "int tail < lh_n (hdr s)")
    case True
    from install_trans_from_step [OF "1.prems"(1) True]
    obtain s1 where len: "tail < length (lh_block (hdr s))"
      and b: "install_body r tail s = Inr s1"
      and run: "install_trans_from r (Suc tail) s1 = Inr s'" by blast
    note e = install_body_effect [OF b]
    have "\<forall>i. Suc tail \<le> i \<and> int i < lh_n (hdr s1) \<longrightarrow> x \<noteq> lh_block (hdr s1) ! i"
      using "1.prems"(2) by (simp add: e(1))
    from "1.IH" [OF True len b run this] have "payload s' x = payload s1 x" .
    also have "\<dots> = payload s x" using "1.prems"(2) True by (simp add: e(3))
    finally show ?thesis .
  next
    case False
    with install_trans_from_stop [OF "1.prems"(1)] show ?thesis by simp
  qed
qed

lemma install_trans_from_trace:
  "install_trans_from r tail s = Inr s' \<Longrightarrow> set (logged s) \<inter> set (slots s) = {} \<Longrightarrow>
   nat (lh_n (hdr s)) \<le> length (lh_block (hdr s)) \<Longrightarrow>
   trace s' = trace s @
     map (\<lambda>i. Bwrite (lh_block (hdr s) ! i) (payload s (slot s i))) [tail..<nat (lh_n (hdr s))]"
proof (induction r tail s rule: install_trans_from.induct)
  case (1 r tail s)
  show ?case
  proof (cases "int tail < lh_n (hdr s)")
    case True
    from install_trans_from_step [OF "1.prems"(1) True]
    obtain s1 where len: "tail < length (lh_block (hdr s))"
      and b: "install_body r tail s = Inr s1"
      and run: "install_trans_from r (Suc tail) s1 = Inr s'" by blast
    note e = install_body_effect [OF b]
    note fr = logged_bodies(1) [OF b]
    have up: "[tail..<nat (lh_n (hdr s))] = tail # [Suc tail..<nat (lh_n (hdr s))]"
      using True by (intro upt_conv_Cons) linarith
    have same: "payload s1 (slot s i) = payload s (slot s i)"
      if "i \<in> set [Suc tail..<nat (lh_n (hdr s))]" for i
    proof -
      from that have i: "int i < lh_n (hdr s)" by auto
      from home_not_slot [OF "1.prems"(2) True len i] show ?thesis by (simp add: e(3))
    qed
    have p2: "set (logged s1) \<inter> set (slots s1) = {}" using "1.prems"(2) fr by simp
    have p3: "nat (lh_n (hdr s1)) \<le> length (lh_block (hdr s1))" using "1.prems"(3) by (simp add: e(1))
    have "trace s' = trace s1 @
      map (\<lambda>i. Bwrite (lh_block (hdr s) ! i) (payload s1 (slot s i))) [Suc tail..<nat (lh_n (hdr s))]"
      using "1.IH" [OF True len b run p2 p3] fr by (simp add: e(1))
    also have "map (\<lambda>i. Bwrite (lh_block (hdr s) ! i) (payload s1 (slot s i))) [Suc tail..<nat (lh_n (hdr s))]
      = map (\<lambda>i. Bwrite (lh_block (hdr s) ! i) (payload s (slot s i))) [Suc tail..<nat (lh_n (hdr s))]"
      by (rule map_cong [OF refl]) (simp only: same)
    finally show ?thesis by (simp add: up e(5))
  next
    case False
    with install_trans_from_stop [OF "1.prems"(1)] show ?thesis by simp
  qed
qed

lemma replay_functional:
  "\<forall>(b, v) \<in> set ws. v = g b \<Longrightarrow>
   replay ws d x = (if x \<in> fst ` set ws then g x else d x)"
proof (induction ws arbitrary: d)
  case Nil
  then show ?case by simp
next
  case (Cons w ws)
  obtain b v where w: "w = (b, v)" by (cases w)
  with Cons.prems have v: "v = g b" and rest: "\<forall>(b, v) \<in> set ws. v = g b" by auto
  have ih: "replay ws (d(b := v)) x = (if x \<in> fst ` set ws then g x else (d(b := v)) x)"
    by (rule Cons.IH [OF rest])
  show ?case
    by (simp add: w ih) (simp add: v)
qed

lemma writes_Bwrite_map [simp]:
  "writes (map (\<lambda>i. Bwrite (f i) (g i)) xs) = map (\<lambda>i. (f i, g i)) xs"
  by (induction xs) simp_all

subsection \<open>The commit engine, in closed form\<close>

lemma log_ok_small: "log_ok P s \<Longrightarrow> int i < lh_n (hdr s) \<Longrightarrow> Suc i < 2 ^ 32"
proof -
  assume "log_ok P s" and i: "int i < lh_n (hdr s)"
  then have "lh_n (hdr s) < 2 ^ 31" by (simp add: log_ok_def)
  with i have "int i < 2 ^ 31" by linarith
  then have "i < 2 ^ 31" by (simp add: nat_less_iff [symmetric] del: of_nat_less_iff)
  then show ?thesis by simp
qed

lemma no_self_alias:
  assumes "set (logged s) \<inter> set (slots s) = {}"
    and "nat (lh_n (hdr s)) \<le> length (lh_block (hdr s))"
  shows "\<forall>i. int i < lh_n (hdr s) \<longrightarrow> lh_block (hdr s) ! i \<noteq> slot s i"
proof (intro allI impI)
  fix i assume i: "int i < lh_n (hdr s)"
  with assms(2) have "i < length (lh_block (hdr s))" by linarith
  from home_not_slot [OF assms(1) i this i] show "lh_block (hdr s) ! i \<noteq> slot s i"
    by (rule not_sym)
qed

lemma commit_returns:
  assumes ok: "log_ok P s" and out: "homes_outside_log s" and free: "held s = {}"
  shows "\<exists>s'. commit s = Inr s'"
proof (cases "0 < lh_n (hdr s)")
  case False
  then show ?thesis by (simp add: commit_def)
next
  case pos: True
  note fits = log_ok_fits [OF ok]
  from out have noalias: "set (logged s) \<inter> set (slots s) = {}"
    by (simp add: homes_outside_log_def)
  note own = no_self_alias [OF noalias fits]
  from write_log_from_returns [OF fits free own, of 0]
  obtain s1 where w1: "write_log_from 0 s = Inr s1" ..
  note f1 = write_log_from_frame [OF w1]
  have "nat (lh_n (hdr s1)) \<le> length (lh_block (hdr s1))" using fits f1 by simp
  moreover have "log_start (lg s1) \<notin> held s1" using f1 free by simp
  ultimately obtain s2 where w2: "write_head s1 = Inr s2"
    using write_head_returns [of s1] by blast
  note e2 = write_head_effect [OF w2]
  have lg2: "lg s2 = lg s" using e2(1) f1 by simp
  have fits2: "nat (lh_n (hdr s2)) \<le> length (lh_block (hdr s2))" using fits lg2 by simp
  have free2: "held s2 = {}" using e2(6) f1 free by simp
  have own2: "\<forall>i. int i < lh_n (hdr s2) \<longrightarrow> lh_block (hdr s2) ! i \<noteq> slot s2 i"
    using own slot_frame [OF lg2] by (simp add: lg2)
  from install_trans_from_returns [OF fits2 free2 own2, of 0 0]
  obtain s3 where w3: "install_trans_from 0 0 s2 = Inr s3" ..
  have "held s3 = {}" using install_trans_from_lg [OF w3] free2 by simp
  then have "log_start (lg (set_n 0 s3)) \<notin> held (set_n 0 s3)" by simp
  moreover have "nat (lh_n (hdr (set_n 0 s3))) \<le> length (lh_block (hdr (set_n 0 s3)))" by simp
  ultimately obtain s4 where w4: "write_head (set_n 0 s3) = Inr s4"
    using write_head_returns [of "set_n 0 s3"] by blast
  have "commit s = Inr s4"
    using pos w1 w2 w3 w4 by (simp add: commit_def write_log_def install_trans_def)
  then show ?thesis ..
qed

lemma commit_effect:
  assumes ok: "log_ok P s" and pos: "0 < lh_n (hdr s)" and out: "homes_outside_log s"
    and run: "commit s = Inr s'"
  shows "trace s' = trace s @ four_phases s"
    and "lg s' = (lg s)\<lparr>log_lh := (hdr s)\<lparr>lh_n := 0\<rparr>\<rparr>"
    and "tracked s s'"
    and "pins s' x = pins s x - int (count_list (logged s) x)"
    and "held s' = held s"
proof -
  let ?st = "log_start (lg s)"
  let ?n = "nat (lh_n (hdr s))"
  let ?blk = "lh_block (hdr s)"
  let ?H = "encode (hdr s) (payload s ?st)"
  note fits = log_ok_fits [OF ok]
  from out have noalias: "set (logged s) \<inter> set (slots s) = {}"
    and st_home: "?st \<notin> set (logged s)" by (simp_all add: homes_outside_log_def)
  have st_slot: "slot s i \<noteq> ?st" if "int i < lh_n (hdr s)" for i
    using slot_not_start [OF log_ok_small [OF ok that]] .
  have n32: "?n \<le> 2 ^ 32" using ok by (auto simp: log_ok_def)
  from run pos obtain s1 s2 s3 where w1: "write_log_from 0 s = Inr s1"
    and w2: "write_head s1 = Inr s2" and w3: "install_trans_from 0 0 s2 = Inr s3"
    and w4: "write_head (set_n 0 s3) = Inr s'"
    by (auto simp: commit_def write_log_def install_trans_def split: sum.splits)
  \<comment> \<open>phase 1\<close>
  note f1 = write_log_from_frame [OF w1]
  have t1: "trace s1 = trace s @ phase1 s"
    using write_log_from_trace [OF w1 noalias fits] by (simp add: phase1_def)
  have p1_slot: "payload s1 (slot s j) = payload s (?blk ! j)" if "int j < lh_n (hdr s)" for j
    using write_log_from_payload_slot [OF w1 noalias fits n32 _ that] by simp
  have p1_st: "payload s1 ?st = payload s ?st"
  proof (rule write_log_from_payload_other [OF w1], intro allI impI)
    fix i assume "0 \<le> i \<and> int i < lh_n (hdr s)"
    then have "slot s i \<noteq> ?st" using st_slot by blast
    then show "?st \<noteq> slot s i" by (rule not_sym)
  qed
  \<comment> \<open>phase 2\<close>
  note e2 = write_head_effect [OF w2]
  have t2: "trace s2 = trace s1 @ phase2 s"
    using e2(5) f1 p1_st by (simp add: phase2_def)
  have p2_slot: "payload s2 (slot s j) = payload s (?blk ! j)" if "int j < lh_n (hdr s)" for j
    using e2(3) [of "slot s j"] st_slot [OF that] p1_slot [OF that] f1 by simp
  have p2_st: "payload s2 ?st = ?H"
    using e2(3) [of ?st] f1 p1_st by simp
  have lg2: "lg s2 = lg s" using e2(1) f1 by simp
  \<comment> \<open>phase 3\<close>
  note f3 = install_trans_from_lg [OF w3]
  have lg3: "lg s3 = lg s" using f3 lg2 by simp
  have sl2: "slot s2 = slot s" using lg2 by (rule slot_frame)
  have "trace s3 = trace s2 @
      map (\<lambda>i. Bwrite (?blk ! i) (payload s2 (slot s i))) [0..<?n]"
    using install_trans_from_trace [OF w3] noalias fits lg2 sl2
    by (simp add: logged_frame [OF lg2] slots_frame [OF lg2])
  also have "map (\<lambda>i. Bwrite (?blk ! i) (payload s2 (slot s i))) [0..<?n] = phase3 s"
    unfolding phase3_def by (rule map_cong [OF refl]) (simp add: p2_slot)
  finally have t3: "trace s3 = trace s2 @ phase3 s" .
  have p3_st: "payload s3 ?st = ?H"
  proof -
    have "payload s3 ?st = payload s2 ?st"
    proof (rule install_trans_from_payload_other [OF w3], intro allI impI)
      fix i assume "0 \<le> i \<and> int i < lh_n (hdr s2)"
      then have i: "int i < lh_n (hdr s)" using lg2 by simp
      with fits have "i < length ?blk" by linarith
      from nth_logged [OF i this] st_home show "?st \<noteq> lh_block (hdr s2) ! i"
        using lg2 by auto
    qed
    with p2_st show ?thesis by simp
  qed
  have pins3: "pins s3 x = pins s x - int (count_list (logged s) x)"
    using install_trans_from_pins_commit [OF w3, of x] e2(2) f1
    by (simp add: logged_frame [OF lg2])
  \<comment> \<open>phase 4\<close>
  note e4 = write_head_effect [OF w4]
  have t4: "trace s' = trace s3 @ phase4 s"
    using e4(5) lg3 p3_st by (simp add: phase4_def encode_zero)
  show "tracked s s'"
  proof -
    have "tracked s s1" by (rule write_log_from_tracked [OF w1])
    moreover have "tracked s1 s2" using e2(4,5) by (simp add: tracked_def)
    moreover have "tracked s2 s3" by (rule install_trans_from_tracked [OF w3])
    moreover have "tracked s3 s'" using e4(4,5) by (simp add: tracked_def)
    ultimately show ?thesis by (blast intro: tracked_trans)
  qed
  show "trace s' = trace s @ four_phases s"
    by (simp add: t1 t2 t3 t4 four_phases_def)
  show "lg s' = (lg s)\<lparr>log_lh := (hdr s)\<lparr>lh_n := 0\<rparr>\<rparr>"
    using e4(1) lg3 by simp
  show "pins s' x = pins s x - int (count_list (logged s) x)"
    using e4(2) pins3 by simp
  show "held s' = held s"
    using e4(6) f3 e2(6) f1 by simp
qed

lemma batch_facts:
  "log_ok P0 batch" "0 < lh_n (hdr batch)" "homes_outside_log batch"
  "logged batch = [5, 9]" "slots batch = [3, 4]" "log_start (lg batch) = 2"
  "held batch = {}"
  by (simp_all add: batch_def mounted_def boot_def P0_def log_ok_def homes_outside_log_def
        logged_def slots_def slot_def upt_rec)

text \<open>
  C3. The structure of the commit engine. With count 0 the commit does nothing. With a
  positive count, on a well-formed log whose home blocks lie outside the log, a commit
  entered by a thread that holds no buffer returns, and the events a returning commit
  produced are exactly the four phases, in this order: every logged block's live payload
  to log position \<open>start + 1 + i\<close>, the header with the true count, every payload to its
  home block, the header with count 0. The disk it leaves is the disk of these writes, and
  the count in memory is 0.
\<close>

theorem commit_four_phases:
  "(lh_n (hdr s) = 0 \<longrightarrow> commit s = Inr s) \<and>
   (log_ok P s \<and> 0 < lh_n (hdr s) \<and> homes_outside_log s \<longrightarrow>
      (held s = {} \<longrightarrow> (\<exists>s'. commit s = Inr s')) \<and>
      (\<forall>s'. commit s = Inr s' \<longrightarrow>
            events_since s s' = four_phases s \<and>
            disk s' = replay (writes (four_phases s)) (disk s) \<and>
            lh_n (hdr s') = 0 \<and> held s' = held s) \<and>
      hdr_n (encode (hdr s) (payload s (log_start (lg s)))) = lh_n (hdr s))"
proof (intro conjI impI allI)
  assume "lh_n (hdr s) = 0"
  then show "commit s = Inr s" by (simp add: commit_def)
next
  assume "log_ok P s \<and> 0 < lh_n (hdr s) \<and> homes_outside_log s" and "held s = {}"
  then show "\<exists>s'. commit s = Inr s'" using commit_returns [of P s] by blast
next
  assume a: "log_ok P s \<and> 0 < lh_n (hdr s) \<and> homes_outside_log s"
  then show "hdr_n (encode (hdr s) (payload s (log_start (lg s)))) = lh_n (hdr s)"
    by (intro hdr_n_encode) (auto simp: log_ok_def)
next
  fix s'
  assume a: "log_ok P s \<and> 0 < lh_n (hdr s) \<and> homes_outside_log s"
    and run: "commit s = Inr s'"
  from a have ok: "log_ok P s" and pos: "0 < lh_n (hdr s)" and out: "homes_outside_log s"
    by simp_all
  note c = commit_effect [OF ok pos out run]
  show "events_since s s' = four_phases s" using c(1) by simp
  then show "disk s' = replay (writes (four_phases s)) (disk s)"
    using tracked_diskD [OF c(3)] by simp
  show "lh_n (hdr s') = 0" using c(2) by simp
  show "held s' = held s" by (rule c(5))
qed

theorem commit_four_phases_witness:
  "log_ok P0 batch \<and> 0 < lh_n (hdr batch) \<and> homes_outside_log batch \<and> held batch = {} \<and>
   (\<exists>s'. commit batch = Inr s' \<and> events_since batch s' = four_phases batch \<and>
         disk s' = replay (writes (four_phases batch)) (disk batch) \<and> lh_n (hdr s') = 0) \<and>
   map fst (writes (four_phases batch)) = [3, 4, 2, 5, 9, 2]"
proof -
  have "map fst (writes (four_phases batch)) = [3, 4, 2, 5, 9, 2]"
    by (simp add: four_phases_def phase1_def phase2_def phase3_def phase4_def batch_def
          mounted_def boot_def slot_def upt_rec)
  with commit_four_phases [of batch P0] batch_facts(1-3,7) show ?thesis by blast
qed

subsection \<open>Callers of log_write\<close>

lemma modify_simps [simp]:
  "lg (modify b d s) = lg s"
  "disk (modify b d s) = disk s"
  "pins (modify b d s) = pins s"
  "trace (modify b d s) = trace s"
  "held (modify b d s) = held s"
  "payload (modify b d s) x = (if x = b then d else payload s x)"
  by (simp_all add: modify_def payload_def split: option.splits)

lemma log_ok_lg: "lg s' = lg s \<Longrightarrow> log_ok P s' = log_ok P s"
  by (simp add: log_ok_def)

lemma fs_write_effect:
  assumes ok: "log_ok P s" and run: "fs_write P b d s = Inr s'"
  shows "log_ok P s'"
    and "logged s' = (if b \<in> set (logged s) then logged s else logged s @ [b])"
    and "pins s' = (if b \<in> set (logged s) then pins s else (pins s)(b := pins s b + 1))"
    and "disk s' = disk s"
    and "payload s' x = (if x = b then d else payload s x)"
    and "trace s' = trace s @ [Acquire, Release]"
    and "log_start (lg s') = log_start (lg s)"
    and "log_outstanding (lg s') = log_outstanding (lg s)"
    and "log_size (lg s') = log_size (lg s)"
    and "lh_n (hdr s') = (if b \<in> set (logged s) then lh_n (hdr s) else lh_n (hdr s) + 1)"
    and "held s' = held s" and "b \<notin> held s"
proof -
  let ?m = "modify b d (load b s)"
  from run obtain s3 where w: "log_write P b ?m = Inr s3" and s': "s' = brelse b s3"
    and free: "b \<notin> held s"
    by (auto simp: fs_write_def bread_def split: sum.splits if_splits)
  have okm: "log_ok P ?m" using ok by (simp add: log_ok_lg [of ?m s])
  have lgm: "logged ?m = logged s" by (rule logged_frame) simp
  note e = log_write_effect [OF okm w]
  note l = log_write_logged [OF okm w]
  show "log_ok P s'" using l(2) by (simp add: s' log_ok_lg [of "brelse b s3" s3])
  show "logged s' = (if b \<in> set (logged s) then logged s else logged s @ [b])"
    using l(1) lgm by (simp add: s' logged_frame [of "brelse b s3" s3])
  show "pins s' = (if b \<in> set (logged s) then pins s else (pins s)(b := pins s b + 1))"
    using e(4,5) lgm by (cases "b \<in> set (logged s)"; simp add: s')
  show "disk s' = disk s" using e(6) by (simp add: s')
  show "payload s' x = (if x = b then d else payload s x)" using e(7) [of x] by (simp add: s')
  show "trace s' = trace s @ [Acquire, Release]" using e(8) by (simp add: s')
  have lg3: "lg s3 = (if b \<in> set (logged s) then lg s
                      else (lg s)\<lparr>log_lh := \<lparr>lh_n = lh_n (hdr s) + 1,
                             lh_block = (lh_block (hdr s))[nat (lh_n (hdr s)) := b]\<rparr>\<rparr>)"
    using e(4,5) lgm by (cases "b \<in> set (logged s)") simp_all
  show "log_start (lg s') = log_start (lg s)" "log_outstanding (lg s') = log_outstanding (lg s)"
    "log_size (lg s') = log_size (lg s)"
    "lh_n (hdr s') = (if b \<in> set (logged s) then lh_n (hdr s) else lh_n (hdr s) + 1)"
    by (simp_all add: s' lg3)
  show "held s' = held s" "b \<notin> held s" using e(9) free by (auto simp: s')
qed

lemma fs_writes_effect:
  "log_ok P s \<Longrightarrow> fs_writes P ws s = Inr s' \<Longrightarrow>
   log_ok P s' \<and> set (logged s') = set (logged s) \<union> fst ` set ws \<and>
   (distinct (logged s) \<longrightarrow> distinct (logged s')) \<and>
   (\<forall>x. pins s' x = pins s x + (if x \<in> fst ` set ws - set (logged s) then 1 else 0)) \<and>
   disk s' = disk s \<and> log_start (lg s') = log_start (lg s) \<and>
   log_outstanding (lg s') = log_outstanding (lg s) \<and> log_size (lg s') = log_size (lg s) \<and>
   (\<forall>x. x \<notin> fst ` set ws \<longrightarrow> payload s' x = payload s x) \<and> held s' = held s"
proof (induction ws arbitrary: s)
  case Nil
  then show ?case by simp
next
  case (Cons w ws)
  obtain b d where w: "w = (b, d)" by (cases w)
  from Cons.prems(2) obtain s1 where one: "fs_write P b d s = Inr s1"
    and rest: "fs_writes P ws s1 = Inr s'"
    by (auto simp: w split: sum.splits)
  note e = fs_write_effect [OF Cons.prems(1) one]
  from Cons.IH [OF e(1) rest]
  have ih1: "log_ok P s'"
    and ih2: "set (logged s') = set (logged s1) \<union> fst ` set ws"
    and ih3: "distinct (logged s1) \<longrightarrow> distinct (logged s')"
    and ih4: "\<forall>x. pins s' x = pins s1 x + (if x \<in> fst ` set ws - set (logged s1) then 1 else 0)"
    and ih5: "disk s' = disk s1" "log_start (lg s') = log_start (lg s1)"
      "log_outstanding (lg s') = log_outstanding (lg s1)" "log_size (lg s') = log_size (lg s1)"
    and ih6: "\<forall>x. x \<notin> fst ` set ws \<longrightarrow> payload s' x = payload s1 x"
    and ih7: "held s' = held s1"
    by blast+
  have set1: "set (logged s1) = insert b (set (logged s))" using e(2) by auto
  have d1: "distinct (logged s) \<longrightarrow> distinct (logged s1)" using e(2) by auto
  have p1: "pins s1 x = pins s x + (if x = b \<and> b \<notin> set (logged s) then 1 else 0)" for x
    using e(3) by auto
  show ?case
  proof (intro conjI allI impI)
    show "log_ok P s'" by (rule ih1)
    show "set (logged s') = set (logged s) \<union> fst ` set (w # ws)"
      unfolding ih2 set1 by (auto simp: w)
    show "distinct (logged s')" if "distinct (logged s)" using ih3 d1 that by simp
    show "pins s' x = pins s x + (if x \<in> fst ` set (w # ws) - set (logged s) then 1 else 0)" for x
    proof -
      from ih4 have "pins s' x = pins s1 x + (if x \<in> fst ` set ws - set (logged s1) then 1 else 0)"
        by (rule spec)
      then have "pins s' x = pins s x + (if x = b \<and> b \<notin> set (logged s) then 1 else 0)
         + (if x \<in> fst ` set ws - insert b (set (logged s)) then 1 else 0)"
        by (simp only: p1 set1)
      also have "\<dots> = pins s x + (if x \<in> fst ` set (w # ws) - set (logged s) then 1 else (0::int))"
        by (cases "x = b") (simp_all add: w)
      finally show ?thesis .
    qed
    show "disk s' = disk s" using ih5 e(4) by simp
    show "log_start (lg s') = log_start (lg s)" using ih5 e(7) by simp
    show "log_outstanding (lg s') = log_outstanding (lg s)" using ih5 e(8) by simp
    show "log_size (lg s') = log_size (lg s)" using ih5 e(9) by simp
    show "held s' = held s" using ih7 e(11) by simp
    show "payload s' x = payload s x" if "x \<notin> fst ` set (w # ws)" for x
    proof -
      from that have "x \<notin> fst ` set ws" "x \<noteq> b" by (auto simp: w)
      with ih6 e(5) [of x] show ?thesis by simp
    qed
  qed
qed

lemma commit_pins:
  assumes "commit s = Inr s'"
  shows "pins s' x = (if 0 < lh_n (hdr s) then pins s x - int (count_list (logged s) x)
                      else pins s x)"
proof (cases "0 < lh_n (hdr s)")
  case False
  with assms show ?thesis by (simp add: commit_def)
next
  case True
  with assms obtain s1 s2 s3 where w1: "write_log_from 0 s = Inr s1"
    and w2: "write_head s1 = Inr s2" and w3: "install_trans_from 0 0 s2 = Inr s3"
    and w4: "write_head (set_n 0 s3) = Inr s'"
    by (auto simp: commit_def write_log_def install_trans_def split: sum.splits)
  note f1 = write_log_from_frame [OF w1]
  note e2 = write_head_effect(1,2) [OF w2]
  have lg2: "lg s2 = lg s" using f1 e2 by simp
  have "pins s3 x = pins s x - int (count_list (logged s) x)"
    using install_trans_from_pins_commit [OF w3, of x] f1 e2
    by (simp add: logged_frame [OF lg2])
  with write_head_effect(2) [OF w4] True show ?thesis by simp
qed

lemma map_nth_upt_take: "k \<le> length xs \<Longrightarrow> map (\<lambda>i. xs ! i) [0..<k] = take k xs"
  by (auto simp: list_eq_iff_nth_eq)

lemma fst_set_phase3:
  "nat (lh_n (hdr s)) \<le> length (lh_block (hdr s)) \<Longrightarrow>
   fst ` set (writes (phase3 s)) = set (logged s)"
proof -
  assume fits: "nat (lh_n (hdr s)) \<le> length (lh_block (hdr s))"
  have "map fst (writes (phase3 s)) = map (\<lambda>i. lh_block (hdr s) ! i) [0..<nat (lh_n (hdr s))]"
    by (simp add: phase3_def comp_def)
  also have "\<dots> = logged s"
    using fits by (simp add: logged_def map_nth_upt_take)
  finally have "map fst (writes (phase3 s)) = logged s" .
  then have "set (map fst (writes (phase3 s))) = set (logged s)" by simp
  then show ?thesis by simp
qed

lemma phase3_functional: "\<forall>(b, v) \<in> set (writes (phase3 s)). v = payload s b"
  by (auto simp: phase3_def)

lemma commit_installs:
  assumes ok: "log_ok P s" and pos: "0 < lh_n (hdr s)" and out: "homes_outside_log s"
    and run: "commit s = Inr s'" and b: "b \<in> set (logged s)"
  shows "disk s' b = payload s b"
proof -
  note c = commit_effect [OF ok pos out run]
  have tr: "tracked s s'" and ev: "trace s' = trace s @ four_phases s" by (rule c(3), rule c(1))
  from out b have ne: "b \<noteq> log_start (lg s)" by (auto simp: homes_outside_log_def)
  let ?d = "replay (writes (phase1 s @ phase2 s)) (disk s)"
  have "disk s' = replay (writes (four_phases s)) (disk s)"
    using tracked_diskD [OF tr] ev by simp
  then have "disk s' b = replay (writes (phase4 s)) (replay (writes (phase3 s)) ?d) b"
    by (simp add: four_phases_def)
  also have "\<dots> = replay (writes (phase3 s)) ?d b"
    using ne by (simp add: phase4_def)
  also have "\<dots> = payload s b"
    using replay_functional [OF phase3_functional, of s ?d b] b
      fst_set_phase3 [OF log_ok_fits [OF ok]] by simp
  finally show ?thesis .
qed

lemma count_list_distinct:
  "distinct xs \<Longrightarrow> count_list xs x = (if x \<in> set xs then 1 else 0)"
  by (induction xs) auto

text \<open>
  C10. Pin discipline. (1) \<^verbatim>\<open>log_write\<close> raises the pin count of its block by one when
  the block number is newly appended, and leaves every pin count alone when the write is
  absorbed. (2) The install run of a commit lowers the pin count of every block once per
  log entry that names it. (3) The install run of recovery changes no pin count.
  (4) Hence over one batch that starts with an empty log, every distinct logged block is
  pinned exactly once by the writes, and the commit gives every pin back.
\<close>

theorem pin_discipline:
  "(log_ok P s \<and> log_write P b s = Inr s' \<longrightarrow>
      pins s' = (if b \<in> set (logged s) then pins s else (pins s)(b := pins s b + 1))) \<and>
   (install_trans 0 t = Inr t' \<longrightarrow>
      (\<forall>x. pins t' x = pins t x - int (count_list (logged t) x))) \<and>
   (recover_from_log u = Inr u' \<longrightarrow> pins u' = pins u) \<and>
   (log_ok P s0 \<and> lh_n (hdr s0) = 0 \<and> fs_writes P ws s0 = Inr s1 \<and> commit s1 = Inr s2 \<longrightarrow>
      (\<forall>x. pins s1 x = pins s0 x + (if x \<in> fst ` set ws then 1 else 0)) \<and>
      (\<forall>x. count_list (logged s1) x = (if x \<in> fst ` set ws then 1 else 0)) \<and>
      pins s2 = pins s0)"
proof -
  have part1: "pins s' = (if b \<in> set (logged s) then pins s else (pins s)(b := pins s b + 1))"
    if "log_ok P s \<and> log_write P b s = Inr s'"
  proof -
    from that have ok: "log_ok P s" and run: "log_write P b s = Inr s'" by simp_all
    from log_write_effect(4,5) [OF ok run] show ?thesis
      by (cases "b \<in> set (logged s)") simp_all
  qed
  have part2: "\<forall>x. pins t' x = pins t x - int (count_list (logged t) x)"
    if "install_trans 0 t = Inr t'"
  proof -
    from that have "install_trans_from 0 0 t = Inr t'" by (simp add: install_trans_def)
    from install_trans_from_pins_commit [OF this] show ?thesis by simp
  qed
  have part3: "pins u' = pins u" if "recover_from_log u = Inr u'"
  proof -
    from that obtain a c where a: "read_head u = Inr a" and c: "install_trans_from 1 0 a = Inr c"
      and w: "write_head (set_n 0 c) = Inr u'"
      by (auto simp: recover_from_log_def install_trans_def split: sum.splits)
    from read_head_effect(3) [OF a] install_trans_from_pins_recovering [OF c]
      write_head_effect(2) [OF w]
    show ?thesis by simp
  qed
  have part4: "(\<forall>x. pins s1 x = pins s0 x + (if x \<in> fst ` set ws then 1 else 0)) \<and>
      (\<forall>x. count_list (logged s1) x = (if x \<in> fst ` set ws then 1 else 0)) \<and>
      pins s2 = pins s0"
    if a: "log_ok P s0 \<and> lh_n (hdr s0) = 0 \<and> fs_writes P ws s0 = Inr s1 \<and> commit s1 = Inr s2"
  proof -
    from a have ok: "log_ok P s0" and n0: "lh_n (hdr s0) = 0" and ws: "fs_writes P ws s0 = Inr s1"
      and c: "commit s1 = Inr s2" by simp_all
    have empty: "logged s0 = []" using n0 by (simp add: logged_def)
    from fs_writes_effect [OF ok ws] empty
    have set1: "set (logged s1) = fst ` set ws" and d1: "distinct (logged s1)"
      and p1: "\<forall>x. pins s1 x = pins s0 x + (if x \<in> fst ` set ws then 1 else 0)"
      by simp_all
    have cnt: "count_list (logged s1) x = (if x \<in> fst ` set ws then 1 else 0)" for x
      using count_list_distinct [OF d1, of x] set1 by simp
    have pos: "0 < lh_n (hdr s1)" if "x \<in> fst ` set ws" for x
    proof -
      from that set1 have "logged s1 \<noteq> []" by auto
      then show ?thesis by (auto simp: logged_def)
    qed
    have "pins s2 x = pins s0 x" for x
    proof (cases "x \<in> fst ` set ws")
      case True
      with commit_pins [OF c, of x] pos [OF True] cnt [of x] p1 show ?thesis by simp
    next
      case False
      with commit_pins [OF c, of x] cnt [of x] p1 show ?thesis by simp
    qed
    then have "pins s2 = pins s0" by (rule ext)
    with p1 cnt show ?thesis by simp
  qed
  from part1 part2 part3 part4 show ?thesis by blast
qed

subsection \<open>Totality\<close>

lemma fs_write_returns:
  assumes "log_ok P s" and "lh_n (hdr s) < LOGSIZE P" and "lh_n (hdr s) < log_size (lg s) - 1"
    and "1 \<le> log_outstanding (lg s)" and "b \<notin> held s"
  shows "\<exists>s'. fs_write P b d s = Inr s'"
proof -
  let ?m = "modify b d (load b s)"
  have "log_ok P ?m" using assms(1) by (simp add: log_ok_lg [of ?m s])
  from log_write_returns [OF this, of b] assms(2-4)
  obtain s3 where "log_write P b ?m = Inr s3" by auto
  with assms(5) show ?thesis by (simp add: fs_write_def bread_def)
qed

lemma fs_writes_returns:
  "log_ok P s \<Longrightarrow> lh_n (hdr s) + int (length ws) \<le> LOGSIZE P \<Longrightarrow>
   lh_n (hdr s) + int (length ws) \<le> log_size (lg s) - 1 \<Longrightarrow> 1 \<le> log_outstanding (lg s) \<Longrightarrow>
   held s = {} \<Longrightarrow> \<exists>s'. fs_writes P ws s = Inr s'"
proof (induction ws arbitrary: s)
  case Nil
  then show ?case by simp
next
  case (Cons w ws)
  obtain b d where w: "w = (b, d)" by (cases w)
  from Cons.prems have "lh_n (hdr s) < LOGSIZE P" "lh_n (hdr s) < log_size (lg s) - 1" by simp_all
  from fs_write_returns [OF Cons.prems(1) this Cons.prems(4), of b d] Cons.prems(5)
  obtain s1 where one: "fs_write P b d s = Inr s1" by auto
  note e = fs_write_effect [OF Cons.prems(1) one]
  have "lh_n (hdr s1) \<le> lh_n (hdr s) + 1" using e(10) by simp
  with Cons.prems e(8,9,11)
  have "lh_n (hdr s1) + int (length ws) \<le> LOGSIZE P"
    "lh_n (hdr s1) + int (length ws) \<le> log_size (lg s1) - 1" "1 \<le> log_outstanding (lg s1)"
    "held s1 = {}"
    by simp_all
  from Cons.IH [OF e(1) this] obtain s' where "fs_writes P ws s1 = Inr s'" ..
  with one show ?case by (simp add: w)
qed

lemma opened_facts:
  "log_ok P0 opened" "lh_n (hdr opened) = 0" "log_outstanding (lg opened) = 1"
  "log_size (lg opened) = 4" "LOGSIZE P0 = 4" "logged opened = []" "log_start (lg opened) = 2"
  "pins opened = (\<lambda>b. 0)" "disk opened = (\<lambda>b k. 0)" "held opened = {}"
  by (simp_all add: opened_def mounted_def boot_def P0_def log_ok_def logged_def)

lemma fs_writes_same:
  "log_ok P s \<Longrightarrow> fs_writes P (map (Pair b) ds) s = Inr s' \<Longrightarrow> ds \<noteq> [] \<Longrightarrow>
   logged s' = (if b \<in> set (logged s) then logged s else logged s @ [b]) \<and>
   lh_n (hdr s') = (if b \<in> set (logged s) then lh_n (hdr s) else lh_n (hdr s) + 1) \<and>
   payload s' b = last ds \<and> log_ok P s'"
proof (induction ds arbitrary: s)
  case Nil
  then show ?case by simp
next
  case (Cons d ds)
  from Cons.prems(2) obtain s1 where one: "fs_write P b d s = Inr s1"
    and rest: "fs_writes P (map (Pair b) ds) s1 = Inr s'"
    by (auto split: sum.splits)
  note e = fs_write_effect [OF Cons.prems(1) one]
  have in1: "b \<in> set (logged s1)" using e(2) by auto
  show ?case
  proof (cases "ds = []")
    case True
    with rest have "s' = s1" by simp
    with e(1,2,5,10) True show ?thesis by simp
  next
    case False
    from Cons.IH [OF e(1) rest False] in1
    have "logged s' = logged s1" "lh_n (hdr s') = lh_n (hdr s1)" "payload s' b = last ds"
      "log_ok P s'" by simp_all
    with e(2,10) False show ?thesis by simp
  qed
qed

lemma one_block_batch:
  assumes run: "fs_writes P0 (map (Pair 5) ds) opened = Inr s1" and ne: "ds \<noteq> []"
  shows "logged s1 = [5]" and "lh_n (hdr s1) = 1" and "log_ok P0 s1"
    and "homes_outside_log s1" and "held s1 = {}" and "payload s1 5 = last ds"
    and "\<exists>s2. commit s1 = Inr s2"
proof -
  from fs_writes_same [OF opened_facts(1) run ne]
  show l1: "logged s1 = [5]" "lh_n (hdr s1) = 1" "log_ok P0 s1" "payload s1 5 = last ds"
    by (simp_all add: opened_facts)
  from fs_writes_effect [OF opened_facts(1) run]
  have st: "log_start (lg s1) = 2" and "held s1 = held opened" by (simp_all add: opened_facts)
  then show free: "held s1 = {}" by (simp add: opened_facts)
  from st l1(1,2) show out: "homes_outside_log s1"
    by (simp add: homes_outside_log_def slots_def slot_def)
  from commit_returns [OF l1(3) out free] show "\<exists>s2. commit s1 = Inr s2" .
qed

lemma scenario_recovers: "\<exists>u'. recover_from_log (mounted P0 scenario_disk) = Inr u'"
proof -
  let ?s = "mounted P0 scenario_disk"
  have n: "nat (hdr_n (payload ?s (log_start (lg ?s)))) = 2"
    by (simp add: scenario_facts hdr_n_def)
  have fits: "nat (hdr_n (payload ?s (log_start (lg ?s)))) \<le> length (lh_block (hdr ?s))"
    by (simp add: scenario_facts hdr_n_def)
  have own: "\<forall>i<nat (hdr_n (payload ?s (log_start (lg ?s)))).
               hdr_block (payload ?s (log_start (lg ?s))) i \<noteq> slot ?s i"
    unfolding n
  proof (intro allI impI)
    fix i :: nat
    assume "i < 2"
    then consider "i = 0" | "i = Suc 0" by linarith
    then show "hdr_block (payload ?s (log_start (lg ?s))) i \<noteq> slot ?s i"
      by cases (simp_all add: scenario_facts hdr_block_def)
  qed
  from recover_from_log_returns [OF fits scenario_facts(1) own] show ?thesis .
qed

theorem pin_discipline_witness:
  "\<exists>s' t' u' s1 s2.
     log_ok P0 opened \<and> log_write P0 5 opened = Inr s' \<and> pins s' 5 = 1 \<and> pins s' 9 = 0 \<and>
     install_trans 0 batch = Inr t' \<and> pins t' 5 = - 1 \<and>
     recover_from_log (mounted P0 scenario_disk) = Inr u' \<and> pins u' 5 = 0 \<and>
     lh_n (hdr opened) = 0 \<and>
     fs_writes P0 [(5, \<lambda>k. 1), (5, \<lambda>k. 2)] opened = Inr s1 \<and> commit s1 = Inr s2 \<and>
     pins s1 5 = 1 \<and> count_list (logged s1) 5 = 1 \<and> pins s2 = pins opened"
proof -
  let ?ws = "[(5 :: blockno, (\<lambda>k. 1) :: blockdata), (5, \<lambda>k. 2)]"
  from log_write_returns [of P0 opened 5]
  obtain s' where s': "log_write P0 5 opened = Inr s'" by (auto simp: opened_facts)
  have bn: "set (logged batch) \<inter> set (slots batch) = {}" by (simp add: batch_facts)
  from install_trans_returns [OF log_ok_fits [OF batch_facts(1)] batch_facts(7)
      no_self_alias [OF bn log_ok_fits [OF batch_facts(1)]], of 0]
  obtain t' where t': "install_trans 0 batch = Inr t'" ..
  from scenario_recovers
  obtain u' where u': "recover_from_log (mounted P0 scenario_disk) = Inr u'" ..
  from fs_writes_returns [of P0 opened ?ws]
  obtain s1 where s1: "fs_writes P0 ?ws opened = Inr s1" by (auto simp: opened_facts)
  have "fs_writes P0 (map (Pair 5) [\<lambda>k. 1, \<lambda>k. 2]) opened = Inr s1" using s1 by simp
  from one_block_batch(7) [OF this]
  obtain s2 where s2: "commit s1 = Inr s2" by auto
  note pd = pin_discipline [of P0 opened 5 s' batch t' "mounted P0 scenario_disk" u'
      opened ?ws s1 s2]
  have "pins s' 5 = 1" "pins s' 9 = 0"
    using pd s' by (simp_all add: opened_facts)
  moreover have "pins t' 5 = - 1"
    using pd t' by (simp add: batch_facts) (simp add: batch_def mounted_def boot_def)
  moreover have "pins u' 5 = 0"
    using pd u' by (simp add: mounted_def boot_def)
  moreover have "pins s1 5 = 1" "count_list (logged s1) 5 = 1" "pins s2 = pins opened"
    using pd s1 s2 by (simp_all add: opened_facts)
  ultimately show ?thesis
    using s' t' u' s1 s2 opened_facts(1,2) by blast
qed

text \<open>
  C5. Log absorption. (1) A \<^verbatim>\<open>log_write\<close> of a block number already in the log leaves
  the header as it is; one of a new block number stores it at slot \<open>count\<close> and adds one
  to the count; either way the list stays free of duplicates and holds the block.
  (2) So \<open>N \<ge> 1\<close> writes of one block, with payloads \<open>ds\<close>, take one slot: the count
  grows by one in all. (3) The commit that follows puts the payload of the last write,
  the one in the buffer at commit time, into the block's home location.
\<close>

theorem log_absorption:
  "(log_ok P s \<and> log_write P b s = Inr s' \<longrightarrow>
      (b \<in> set (logged s) \<longrightarrow> hdr s' = hdr s) \<and>
      (b \<notin> set (logged s) \<longrightarrow>
         lh_n (hdr s') = lh_n (hdr s) + 1 \<and>
         lh_block (hdr s') = (lh_block (hdr s))[nat (lh_n (hdr s)) := b]) \<and>
      (distinct (logged s) \<longrightarrow> distinct (logged s')) \<and> b \<in> set (logged s')) \<and>
   (log_ok P s0 \<and> c \<notin> set (logged s0) \<and> ds \<noteq> [] \<and>
    fs_writes P (map (Pair c) ds) s0 = Inr s1 \<and> homes_outside_log s1 \<and> commit s1 = Inr s2 \<longrightarrow>
      lh_n (hdr s1) = lh_n (hdr s0) + 1 \<and> logged s1 = logged s0 @ [c] \<and>
      payload s1 c = last ds \<and> disk s2 c = last ds)"
proof -
  have part1: "(b \<in> set (logged s) \<longrightarrow> hdr s' = hdr s) \<and>
      (b \<notin> set (logged s) \<longrightarrow>
         lh_n (hdr s') = lh_n (hdr s) + 1 \<and>
         lh_block (hdr s') = (lh_block (hdr s))[nat (lh_n (hdr s)) := b]) \<and>
      (distinct (logged s) \<longrightarrow> distinct (logged s')) \<and> b \<in> set (logged s')"
    if "log_ok P s \<and> log_write P b s = Inr s'"
  proof -
    from that have ok: "log_ok P s" and run: "log_write P b s = Inr s'" by simp_all
    note e = log_write_effect(4,5) [OF ok run]
    note l = log_write_logged(1) [OF ok run]
    show ?thesis
    proof (cases "b \<in> set (logged s)")
      case True
      with e(1) l show ?thesis by simp
    next
      case False
      with e(2) l show ?thesis by simp
    qed
  qed
  have part2: "lh_n (hdr s1) = lh_n (hdr s0) + 1 \<and> logged s1 = logged s0 @ [c] \<and>
      payload s1 c = last ds \<and> disk s2 c = last ds"
    if a: "log_ok P s0 \<and> c \<notin> set (logged s0) \<and> ds \<noteq> [] \<and>
      fs_writes P (map (Pair c) ds) s0 = Inr s1 \<and> homes_outside_log s1 \<and> commit s1 = Inr s2"
  proof -
    from a have ok: "log_ok P s0" and new: "c \<notin> set (logged s0)" and ne: "ds \<noteq> []"
      and ws: "fs_writes P (map (Pair c) ds) s0 = Inr s1" and out: "homes_outside_log s1"
      and cm: "commit s1 = Inr s2" by simp_all
    from fs_writes_same [OF ok ws ne] new
    have f: "logged s1 = logged s0 @ [c]" "lh_n (hdr s1) = lh_n (hdr s0) + 1"
      "payload s1 c = last ds" "log_ok P s1" by simp_all
    have pos: "0 < lh_n (hdr s1)" using f(2) ok by (simp add: log_ok_def)
    have "disk s2 c = payload s1 c"
      using f(1) by (intro commit_installs [OF f(4) pos out cm]) simp
    with f show ?thesis by simp
  qed
  from part1 part2 show ?thesis by blast
qed

theorem log_absorption_witness:
  "\<exists>s' s1 s2.
     log_ok P0 opened \<and> log_write P0 5 opened = Inr s' \<and> lh_n (hdr s') = 1 \<and>
     lh_block (hdr s') = [5, 0, 0, 0] \<and>
     5 \<notin> set (logged opened) \<and>
     fs_writes P0 (map (Pair 5) [\<lambda>k. 1, \<lambda>k. 2, \<lambda>k. 3]) opened = Inr s1 \<and>
     homes_outside_log s1 \<and> commit s1 = Inr s2 \<and>
     lh_n (hdr s1) = 1 \<and> logged s1 = [5] \<and> disk s2 5 = (\<lambda>k. 3)"
proof -
  let ?ds = "[(\<lambda>k. 1) :: blockdata, \<lambda>k. 2, \<lambda>k. 3]"
  from log_write_returns [of P0 opened 5]
  obtain s' where s': "log_write P0 5 opened = Inr s'" by (auto simp: opened_facts)
  from fs_writes_returns [of P0 opened "map (Pair 5) ?ds"]
  obtain s1 where s1: "fs_writes P0 (map (Pair 5) ?ds) opened = Inr s1"
    by (auto simp: opened_facts)
  have new: "5 \<notin> set (logged opened)" by (simp add: opened_facts)
  have ne: "?ds \<noteq> []" by simp
  note ob = one_block_batch [OF s1 ne]
  note l1 = ob(1-3)
  note out = ob(4)
  from ob(7) obtain s2 where s2: "commit s1 = Inr s2" ..
  note la = log_absorption [of P0 opened 5 s' opened 5 ?ds s1 s2]
  have blk: "lh_block (hdr opened) = [0, 0, 0, 0]"
    by (simp add: opened_def mounted_def boot_def P0_def eval_nat_numeral)
  have "lh_n (hdr s') = 1" "lh_block (hdr s') = [5, 0, 0, 0]"
    using la s' new blk by (simp_all add: opened_facts)
  moreover have "disk s2 5 = (\<lambda>k. 3)"
    using la s1 s2 out new by (simp add: opened_facts)
  ultimately show ?thesis
    using s' s1 s2 out new l1 opened_facts(1) by blast
qed

subsection \<open>Recovery, in closed form\<close>

lemma recover_effect:
  fixes s :: sys
  defines "H \<equiv> payload s (log_start (lg s))"
  defines "m \<equiv> nat (hdr_n (payload s (log_start (lg s))))"
  assumes fits: "m \<le> length (lh_block (hdr s))"
    and free: "held s = {}"
    and home_st: "\<forall>i<m. hdr_block H i \<noteq> log_start (lg s)"
    and home_sl: "\<forall>i<m. \<forall>j<m. hdr_block H i \<noteq> slot s j"
  shows "\<exists>r. recover_from_log s = Inr r \<and>
           trace r = trace s @ map (\<lambda>i. Bwrite (hdr_block H i) (payload s (slot s i))) [0..<m] @
                     [Bwrite (log_start (lg s)) (H(0 := 0))] \<and>
           tracked s r \<and> lh_n (hdr r) = 0 \<and> log_start (lg r) = log_start (lg s)"
proof -
  let ?st = "log_start (lg s)"
  from read_head_returns [of s] fits free obtain a where a: "read_head s = Inr a"
    by (auto simp: m_def)
  note ra = read_head_effect [OF a]
  have na: "nat (lh_n (hdr a)) = m" using ra(5) by (simp add: m_def)
  have fits_a: "nat (lh_n (hdr a)) \<le> length (lh_block (hdr a))" using fits na ra(10) by simp
  have blk: "lh_block (hdr a) ! i = hdr_block H i" if "i < m" for i
  proof -
    from that have "int i < hdr_n (payload s ?st)" by (simp add: m_def)
    from ra(11) [OF this] show ?thesis by (simp add: H_def)
  qed
  have sl: "slot a = slot s" using ra(6) by (rule slot_start)
  have logged_a: "logged a = map (hdr_block H) [0..<m]"
    unfolding logged_def na using fits ra(10) blk
    by (auto simp: list_eq_iff_nth_eq)
  have slots_a: "slots a = map (slot s) [0..<m]"
    by (simp add: slots_def na sl)
  have noalias: "set (logged a) \<inter> set (slots a) = {}"
    using home_sl by (auto simp: logged_a slots_a)
  have free_a: "held a = {}" using ra(12) free by simp
  from install_trans_from_returns [OF fits_a free_a no_self_alias [OF noalias fits_a], of 1 0]
  obtain c where c: "install_trans_from 1 0 a = Inr c" ..
  have lgc: "lg c = lg a" using install_trans_from_lg [OF c] by simp
  have free_c: "held c = {}" using install_trans_from_lg [OF c] free_a by simp
  have "trace c = trace a @
      map (\<lambda>i. Bwrite (lh_block (hdr a) ! i) (payload a (slot a i))) [0..<nat (lh_n (hdr a))]"
    by (rule install_trans_from_trace [OF c noalias fits_a])
  also have "map (\<lambda>i. Bwrite (lh_block (hdr a) ! i) (payload a (slot a i))) [0..<nat (lh_n (hdr a))]
      = map (\<lambda>i. Bwrite (hdr_block H i) (payload s (slot s i))) [0..<m]"
    unfolding na by (rule map_cong [OF refl]) (simp add: blk sl ra(4))
  finally have tc: "trace c =
      trace s @ map (\<lambda>i. Bwrite (hdr_block H i) (payload s (slot s i))) [0..<m]"
    using ra(2) by simp
  have pc: "payload c ?st = H"
  proof -
    have "payload c ?st = payload a ?st"
    proof (rule install_trans_from_payload_other [OF c], intro allI impI)
      fix i assume "0 \<le> i \<and> int i < lh_n (hdr a)"
      then have "i < m" using na by linarith
      with home_st blk show "?st \<noteq> lh_block (hdr a) ! i" by (metis)
    qed
    then show ?thesis by (simp add: ra(4) H_def)
  qed
  have "nat (lh_n (hdr (set_n 0 c))) \<le> length (lh_block (hdr (set_n 0 c)))" by simp
  moreover have "log_start (lg (set_n 0 c)) \<notin> held (set_n 0 c)" using free_c by simp
  ultimately obtain r where w: "write_head (set_n 0 c) = Inr r"
    using write_head_returns [of "set_n 0 c"] by blast
  note we = write_head_effect [OF w]
  have stc: "log_start (lg c) = ?st" using lgc ra(6) by simp
  have tr: "trace r = trace c @ [Bwrite ?st (H(0 := 0))]"
    using we(5) pc stc by (simp add: encode_zero)
  have "tracked s a" using ra(1,2) by (intro tracked_same) simp_all
  moreover have "tracked a c" by (rule install_trans_from_tracked [OF c])
  moreover have "tracked c r" using we(4,5) by (simp add: tracked_def)
  ultimately have "tracked s r" by (blast intro: tracked_trans)
  moreover have "recover_from_log s = Inr r"
    using a c w by (simp add: recover_from_log_def install_trans_def)
  moreover have "lh_n (hdr r) = 0" "log_start (lg r) = ?st" using we(1) stc by simp_all
  ultimately show ?thesis using tr tc by simp
qed

subsection \<open>Crashes during a commit\<close>

lemma commit_tracked: "commit s = Inr s' \<Longrightarrow> tracked s s'"
proof (cases "0 < lh_n (hdr s)")
  case False
  assume "commit s = Inr s'"
  with False show ?thesis by (simp add: commit_def)
next
  case True
  assume "commit s = Inr s'"
  with True obtain s1 s2 s3 where w1: "write_log_from 0 s = Inr s1"
    and w2: "write_head s1 = Inr s2" and w3: "install_trans_from 0 0 s2 = Inr s3"
    and w4: "write_head (set_n 0 s3) = Inr s'"
    by (auto simp: commit_def write_log_def install_trans_def split: sum.splits)
  have "tracked s s1" by (rule write_log_from_tracked [OF w1])
  moreover have "tracked s1 s2" using write_head_effect(4,5) [OF w2] by (simp add: tracked_def)
  moreover have "tracked s2 s3" by (rule install_trans_from_tracked [OF w3])
  moreover have "tracked s3 s'" using write_head_effect(4,5) [OF w4] by (simp add: tracked_def)
  ultimately show ?thesis by (blast intro: tracked_trans)
qed

lemma commit_prefix:
  assumes run: "commit s = Inr s'"
  shows "map fst (take (nat (lh_n (hdr s))) (writes (events_since s s'))) = slots s"
    and "0 < lh_n (hdr s) \<Longrightarrow>
         fst (writes (events_since s s') ! nat (lh_n (hdr s))) = log_start (lg s)"
proof -
  let ?n = "nat (lh_n (hdr s))"
  have both: "map fst (take ?n (writes (events_since s s'))) = slots s \<and>
     (0 < lh_n (hdr s) \<longrightarrow> fst (writes (events_since s s') ! ?n) = log_start (lg s))"
  proof (cases "0 < lh_n (hdr s)")
    case False
    with run show ?thesis by (simp add: commit_def slots_def)
  next
    case True
    with run obtain s1 s2 s3 where w1: "write_log_from 0 s = Inr s1"
      and w2: "write_head s1 = Inr s2" and w3: "install_trans_from 0 0 s2 = Inr s3"
      and w4: "write_head (set_n 0 s3) = Inr s'"
      by (auto simp: commit_def write_log_def install_trans_def split: sum.splits)
    have t01: "tracked s s1" by (rule write_log_from_tracked [OF w1])
    have t12: "tracked s1 s2" using write_head_effect(4,5) [OF w2] by (simp add: tracked_def)
    have t23: "tracked s2 s3" by (rule install_trans_from_tracked [OF w3])
    have t34: "tracked s3 s'" using write_head_effect(4,5) [OF w4] by (simp add: tracked_def)
    have t24: "tracked s2 s'" using t23 t34 by (rule tracked_trans)
    have t14: "tracked s1 s'" using t12 t24 by (rule tracked_trans)
    let ?W1 = "writes (events_since s s1)"
    let ?h = "(log_start (lg s), encode (hdr s1) (payload s1 (log_start (lg s1))))"
    have lg1: "lg s1 = lg s" using write_log_from_frame [OF w1] by simp
    have e12: "events_since s1 s2 = [Bwrite (log_start (lg s)) (snd ?h)]"
      using write_head_effect(5) [OF w2] lg1 by simp
    have ev: "writes (events_since s s') = ?W1 @ ?h # writes (events_since s2 s')"
      using tracked_events [OF t01 t14] tracked_events [OF t12 t24] e12 by simp
    have tg: "map fst ?W1 = slots s"
      using write_log_from_targets [OF w1] by (simp add: slots_def)
    then have "length ?W1 = ?n" by (metis length_map slots_def length_upt diff_zero)
    with ev tg show ?thesis by (simp add: nth_append)
  qed
  from both show "map fst (take ?n (writes (events_since s s'))) = slots s" by simp
  from both show "fst (writes (events_since s s') ! ?n) = log_start (lg s)"
    if "0 < lh_n (hdr s)" using that by simp
qed

lemma start_not_slot: "log_ok P s \<Longrightarrow> log_start (lg s) \<notin> set (slots s)"
proof
  assume ok: "log_ok P s" and "log_start (lg s) \<in> set (slots s)"
  then have "\<exists>i. i < nat (lh_n (hdr s)) \<and> slot s i = log_start (lg s)"
    by (auto simp: slots_def)
  then obtain i where "i < nat (lh_n (hdr s))" and eq: "slot s i = log_start (lg s)"
    by blast
  then have i: "int i < lh_n (hdr s)" by linarith
  from slot_not_start [OF log_ok_small [OF ok i]] eq show False by simp
qed

lemma boot_simps [simp]:
  "disk (boot P d) = d" "trace (boot P d) = []" "pins (boot P d) = (\<lambda>b. 0)"
  "payload (boot P d) x = d x" "length (lh_block (hdr (boot P d))) = nat (LOGSIZE P)"
  "held (boot P d) = {}"
  by (simp_all add: boot_def payload_def)

lemma initlog_boot:
  assumes "sizeof_logheader P < BSIZE P"
  shows "initlog P dv sb (boot P d) =
         recover_from_log ((boot P d)\<lparr>lg := (lg (boot P d))\<lparr>log_start := sb_logstart sb,
            log_size := sint (sb_nlog sb), log_dev := dv\<rparr>\<rparr>)"
  using assms by (simp add: initlog_def)

lemma recover_after_boot:
  fixes P dv sb d
  defines "b1 \<equiv> (boot P d)\<lparr>lg := (lg (boot P d))\<lparr>log_start := sb_logstart sb,
            log_size := sint (sb_nlog sb), log_dev := dv\<rparr>\<rparr>"
  shows "disk b1 = d" and "trace b1 = []" and "payload b1 x = d x"
    and "log_start (lg b1) = sb_logstart sb"
    and "length (lh_block (hdr b1)) = nat (LOGSIZE P)"
    and "slot b1 i = sb_logstart sb + of_nat i + 1"
    and "held b1 = {}"
  by (simp_all add: b1_def boot_def payload_def slot_def)

text \<open>
  C1. Atomicity before the commit point. Take a machine whose on-disk header holds
  count 0, any sequence of writes of one batch, and the commit that follows. When the
  thread holds no buffer and the home blocks lie outside the log, the commit returns. Of
  a commit that returns, the first \<open>n\<close> disk writes go to the log slots and the next one
  is the header write, so a crash before the header-commit write leaves the first
  \<open>k \<le> n\<close> writes on disk (\<open>k = 0\<close>: the crash came before the commit wrote anything).
  Rebooting on that disk, \<^verbatim>\<open>initlog\<close> returns, and every block that is not one of the
  log slots holds what it held before the batch began; in particular the home location of
  every logged block, home locations being outside the log.
\<close>

theorem atomicity_before_commit_point:
  "log_ok P s0 \<and> hdr_n (disk s0 (log_start (lg s0))) = 0 \<and> fs_writes P ws s0 = Inr s \<and>
   sizeof_logheader P < BSIZE P \<and> sb_logstart sb = log_start (lg s0) \<and>
   k \<le> nat (lh_n (hdr s)) \<longrightarrow>
     (held s0 = {} \<and> homes_outside_log s \<longrightarrow> (\<exists>s'. commit s = Inr s')) \<and>
     (\<forall>s'. commit s = Inr s' \<longrightarrow>
        map fst (take (nat (lh_n (hdr s))) (writes (events_since s s'))) = slots s \<and>
        (0 < lh_n (hdr s) \<longrightarrow>
           fst (writes (events_since s s') ! nat (lh_n (hdr s))) = log_start (lg s)) \<and>
        (\<exists>r. initlog P dv sb (boot P (crash_disk s s' k)) = Inr r \<and>
             (\<forall>x. x \<notin> set (slots s) \<longrightarrow> disk r x = disk s0 x) \<and>
             (homes_outside_log s \<longrightarrow> (\<forall>b \<in> set (logged s). disk r b = disk s0 b))))"
proof (intro impI)
  assume a: "log_ok P s0 \<and> hdr_n (disk s0 (log_start (lg s0))) = 0 \<and> fs_writes P ws s0 = Inr s \<and>
   sizeof_logheader P < BSIZE P \<and> sb_logstart sb = log_start (lg s0) \<and>
   k \<le> nat (lh_n (hdr s))"
  then have ok0: "log_ok P s0" and h0: "hdr_n (disk s0 (log_start (lg s0))) = 0"
    and ws: "fs_writes P ws s0 = Inr s" and sz: "sizeof_logheader P < BSIZE P"
    and sb: "sb_logstart sb = log_start (lg s0)" and k: "k \<le> nat (lh_n (hdr s))"
    by simp_all
  from fs_writes_effect [OF ok0 ws]
  have ok: "log_ok P s" and dsk: "disk s = disk s0" and st: "log_start (lg s) = log_start (lg s0)"
    and hs: "held s = held s0"
    by simp_all
  let ?st = "log_start (lg s)"
  have returns: "\<exists>s'. commit s = Inr s'" if "held s0 = {} \<and> homes_outside_log s"
    using commit_returns [OF ok, of] that hs by simp
  have after: "map fst (take (nat (lh_n (hdr s))) (writes (events_since s s'))) = slots s \<and>
        (0 < lh_n (hdr s) \<longrightarrow>
           fst (writes (events_since s s') ! nat (lh_n (hdr s))) = log_start (lg s)) \<and>
        (\<exists>r. initlog P dv sb (boot P (crash_disk s s' k)) = Inr r \<and>
             (\<forall>x. x \<notin> set (slots s) \<longrightarrow> disk r x = disk s0 x) \<and>
             (homes_outside_log s \<longrightarrow> (\<forall>b \<in> set (logged s). disk r b = disk s0 b)))"
    if c: "commit s = Inr s'" for s'
  proof -
    note pre = commit_prefix [OF c]
    let ?W = "writes (events_since s s')"
    let ?d = "crash_disk s s' k"
    \<comment> \<open>the crash disk differs from the old disk on log slots only\<close>
    have "take k ?W = take k (take (nat (lh_n (hdr s))) ?W)" using k by (simp add: min_def)
    then have "fst ` set (take k ?W) \<subseteq> set (map fst (take (nat (lh_n (hdr s))) ?W))"
      by (metis image_mono set_map set_take_subset)
    then have tg: "fst ` set (take k ?W) \<subseteq> set (slots s)" by (simp only: pre(1))
    have same: "?d x = disk s0 x" if "x \<notin> set (slots s)" for x
    proof -
      from that tg have "x \<notin> fst ` set (take k ?W)" by blast
      then show ?thesis by (simp add: crash_disk_def replay_other dsk)
    qed
    have hd: "hdr_n (?d ?st) = 0" using same [OF start_not_slot [OF ok]] h0 st by simp
    \<comment> \<open>recovery on the crash disk\<close>
    let ?b1 = "(boot P ?d)\<lparr>lg := (lg (boot P ?d))\<lparr>log_start := sb_logstart sb,
              log_size := sint (sb_nlog sb), log_dev := dv\<rparr>\<rparr>"
    note b1 = recover_after_boot [where P = P and d = ?d and sb = sb and dv = dv]
    have st1: "log_start (lg ?b1) = ?st" using b1(4) sb st by simp
    have m0: "nat (hdr_n (payload ?b1 (log_start (lg ?b1)))) = 0"
      using hd by (simp only: st1 b1(3))
    from recover_effect [of ?b1] m0 b1(7)
    obtain r where r: "recover_from_log ?b1 = Inr r"
      and tr: "trace r = trace ?b1 @ [Bwrite ?st ((?d ?st)(0 := 0))]" and tk: "tracked ?b1 r"
      by (auto simp only: st1 b1(3) list.map upt_0 append_Nil simp_thms list.size)
    have "(?d ?st)(0 := 0) = ?d ?st"
      using hdr_n_zero_word [OF hd] by (simp add: fun_upd_idem)
    with tr have ev: "events_since ?b1 r = [Bwrite ?st (?d ?st)]" by simp
    have "disk r = replay (writes (events_since ?b1 r)) (disk ?b1)" by (rule tracked_diskD [OF tk])
    then have dr: "disk r = ?d" by (simp only: ev b1(1)) simp
    have init: "initlog P dv sb (boot P ?d) = Inr r"
      using r by (simp only: initlog_boot [OF sz])
    have frame: "\<forall>x. x \<notin> set (slots s) \<longrightarrow> disk r x = disk s0 x" using same dr by simp
    have homes: "homes_outside_log s \<longrightarrow> (\<forall>b \<in> set (logged s). disk r b = disk s0 b)"
      using frame by (auto simp: homes_outside_log_def)
    from pre init frame homes show ?thesis by blast
  qed
  from returns after
  show "(held s0 = {} \<and> homes_outside_log s \<longrightarrow> (\<exists>s'. commit s = Inr s')) \<and>
     (\<forall>s'. commit s = Inr s' \<longrightarrow>
        map fst (take (nat (lh_n (hdr s))) (writes (events_since s s'))) = slots s \<and>
        (0 < lh_n (hdr s) \<longrightarrow>
           fst (writes (events_since s s') ! nat (lh_n (hdr s))) = log_start (lg s)) \<and>
        (\<exists>r. initlog P dv sb (boot P (crash_disk s s' k)) = Inr r \<and>
             (\<forall>x. x \<notin> set (slots s) \<longrightarrow> disk r x = disk s0 x) \<and>
             (homes_outside_log s \<longrightarrow> (\<forall>b \<in> set (logged s). disk r b = disk s0 b))))"
    by blast
qed

lemma two_writes:
  "\<exists>s. fs_writes P0 [(5, \<lambda>k. 1), (9, \<lambda>k. 2)] opened = Inr s \<and> log_ok P0 s \<and>
       lh_n (hdr s) = 2 \<and> logged s = [5, 9] \<and> slots s = [3, 4] \<and> log_start (lg s) = 2 \<and>
       payload s 5 = (\<lambda>k. 1) \<and> payload s 9 = (\<lambda>k. 2) \<and> disk s = disk opened \<and>
       homes_outside_log s \<and> held s = {}"
proof -
  from fs_write_returns [of P0 opened 5 "\<lambda>k. 1"]
  obtain a where a: "fs_write P0 5 (\<lambda>k. 1) opened = Inr a" by (auto simp: opened_facts)
  note ea = fs_write_effect [OF opened_facts(1) a]
  have na: "lh_n (hdr a) = 1" "logged a = [5]" using ea(2,10) by (simp_all add: opened_facts)
  from fs_write_returns [of P0 a 9 "\<lambda>k. 2"]
  obtain s where s: "fs_write P0 9 (\<lambda>k. 2) a = Inr s"
    using ea(1,8,9,11) na by (auto simp: opened_facts)
  note es = fs_write_effect [OF ea(1) s]
  have ns: "lh_n (hdr s) = 2" "logged s = [5, 9]" "log_start (lg s) = 2"
    using es(2,7,10) ea(7) na by (simp_all add: opened_facts)
  have sl: "slots s = [3, 4]" using ns by (simp add: slots_def slot_def upt_rec)
  have "payload s 5 = (\<lambda>k. 1)" "payload s 9 = (\<lambda>k. 2)"
    using es(5) [of 5] es(5) [of 9] ea(5) [of 5] by simp_all
  moreover have "disk s = disk opened" using es(4) ea(4) by simp
  moreover have "homes_outside_log s" using ns sl by (simp add: homes_outside_log_def)
  moreover have "held s = {}" using es(11) ea(11) by (simp add: opened_facts)
  moreover have "fs_writes P0 [(5, \<lambda>k. 1), (9, \<lambda>k. 2)] opened = Inr s"
    using a s by simp
  ultimately show ?thesis using es(1) ns sl by blast
qed

theorem atomicity_before_commit_point_witness:
  "\<exists>s s' r.
     log_ok P0 opened \<and> hdr_n (disk opened (log_start (lg opened))) = 0 \<and>
     fs_writes P0 [(5, \<lambda>k. 1), (9, \<lambda>k. 2)] opened = Inr s \<and>
     sizeof_logheader P0 < BSIZE P0 \<and> (1 :: nat) \<le> nat (lh_n (hdr s)) \<and>
     held opened = {} \<and> homes_outside_log s \<and> commit s = Inr s' \<and>
     initlog P0 1 \<lparr>sb_logstart = 2, sb_nlog = 4\<rparr> (boot P0 (crash_disk s s' 1)) = Inr r \<and>
     disk r 5 = (\<lambda>k. 0) \<and> disk r 9 = (\<lambda>k. 0)"
proof -
  let ?sb = "\<lparr>sb_logstart = 2, sb_nlog = 4\<rparr>"
  from two_writes obtain s where s: "fs_writes P0 [(5, \<lambda>k. 1), (9, \<lambda>k. 2)] opened = Inr s"
    and n: "lh_n (hdr s) = 2" and sl: "slots s = [3, 4]" and out: "homes_outside_log s"
    by blast
  have h: "hdr_n (disk opened (log_start (lg opened))) = 0"
    by (simp add: opened_facts hdr_n_def)
  have sz: "sizeof_logheader P0 < BSIZE P0" by (simp add: sizeof_logheader_def P0_def)
  have k: "(1 :: nat) \<le> nat (lh_n (hdr s))" using n by simp
  note at = atomicity_before_commit_point
    [of P0 opened "[(5, \<lambda>k. 1), (9, \<lambda>k. 2)]" s ?sb 1 1]
  from at opened_facts(1,7,10) h s sz k out
  obtain s' where c: "commit s = Inr s'" by auto
  from at opened_facts(1,7) h s sz k c
  obtain r where "initlog P0 1 ?sb (boot P0 (crash_disk s s' 1)) = Inr r"
    "\<forall>x. x \<notin> set (slots s) \<longrightarrow> disk r x = disk opened x"
    by auto
  moreover from this(2) have "disk r 5 = (\<lambda>k. 0)" "disk r 9 = (\<lambda>k. 0)"
    by (simp_all add: sl opened_facts)
  ultimately show ?thesis using opened_facts(1,10) h s sz k c out by blast
qed

lemma distinct_slots: "log_ok P s \<Longrightarrow> distinct (slots s)"
proof -
  assume ok: "log_ok P s"
  have "inj_on (slot s) (set [0..<nat (lh_n (hdr s))])"
  proof (rule inj_onI)
    fix i j assume "i \<in> set [0..<nat (lh_n (hdr s))]" "j \<in> set [0..<nat (lh_n (hdr s))]"
      and eq: "slot s i = slot s j"
    then have "int i < lh_n (hdr s)" "int j < lh_n (hdr s)" by auto
    from log_ok_small [OF ok this(1)] log_ok_small [OF ok this(2)]
    have "i < 2 ^ 32" "j < 2 ^ 32" by simp_all
    from slot_inj [OF this eq] show "i = j" .
  qed
  then show ?thesis by (simp add: slots_def distinct_map)
qed

lemma writes_phases [simp]:
  "writes (phase1 s) = map (\<lambda>i. (slot s i, payload s (lh_block (hdr s) ! i))) [0..<nat (lh_n (hdr s))]"
  "writes (phase2 s) = [(log_start (lg s), encode (hdr s) (payload s (log_start (lg s))))]"
  "writes (phase3 s) =
     map (\<lambda>i. (lh_block (hdr s) ! i, payload s (lh_block (hdr s) ! i))) [0..<nat (lh_n (hdr s))]"
  "writes (phase4 s) =
     [(log_start (lg s), (encode (hdr s) (payload s (log_start (lg s))))(0 := 0))]"
  by (simp_all add: phase1_def phase2_def phase3_def phase4_def)

lemma crash_after_commit_point:
  assumes ok: "log_ok P s" and out: "homes_outside_log s"
    and k: "nat (lh_n (hdr s)) < k" "k < 2 * nat (lh_n (hdr s)) + 2"
  defines "d \<equiv> replay (take k (writes (four_phases s))) (disk s)"
  shows "d (log_start (lg s)) = encode (hdr s) (payload s (log_start (lg s)))"
    and "\<forall>i<nat (lh_n (hdr s)). d (slot s i) = payload s (lh_block (hdr s) ! i)"
proof -
  let ?n = "nat (lh_n (hdr s))"
  let ?st = "log_start (lg s)"
  let ?H = "encode (hdr s) (payload s ?st)"
  let ?W1 = "writes (phase1 s)"
  let ?W3 = "writes (phase3 s)"
  let ?j = "k - ?n - 1"
  note fits = log_ok_fits [OF ok]
  have l1: "length ?W1 = ?n" and l3: "length ?W3 = ?n" by simp_all
  have tk: "take k (writes (four_phases s)) = ?W1 @ (?st, ?H) # take ?j ?W3"
    using k by (simp add: four_phases_def l1 l3 del: writes_phases) (simp add: Suc_diff_Suc take_Cons')
  have d: "d = replay (take ?j ?W3) ((replay ?W1 (disk s))(?st := ?H))"
    unfolding d_def tk by (simp del: writes_phases)
  have sub: "fst ` set (take ?j ?W3) \<subseteq> set (logged s)"
  proof -
    have "fst ` set (take ?j ?W3) \<subseteq> fst ` set ?W3" by (meson image_mono set_take_subset)
    then show ?thesis using fst_set_phase3 [OF fits] by simp
  qed
  from out have st_home: "?st \<notin> set (logged s)"
    and noalias: "set (logged s) \<inter> set (slots s) = {}" by (simp_all add: homes_outside_log_def)
  from st_home sub have "?st \<notin> fst ` set (take ?j ?W3)" by blast
  then show "d ?st = ?H" unfolding d by (simp add: replay_other del: writes_phases)
  show "\<forall>i<?n. d (slot s i) = payload s (lh_block (hdr s) ! i)"
  proof (intro allI impI)
    fix i assume i: "i < ?n"
    then have ii: "int i < lh_n (hdr s)" by linarith
    from slot_in_slots [OF ii] noalias sub have "slot s i \<notin> fst ` set (take ?j ?W3)" by blast
    then have "d (slot s i) = ((replay ?W1 (disk s))(?st := ?H)) (slot s i)"
      unfolding d by (simp add: replay_other del: writes_phases)
    also have "\<dots> = replay ?W1 (disk s) (slot s i)"
      using slot_not_start [OF log_ok_small [OF ok ii]] by simp
    also have "\<dots> = payload s (lh_block (hdr s) ! i)"
      using replay_map_distinct [of "slot s" "[0..<?n]" i
          "\<lambda>i. payload s (lh_block (hdr s) ! i)" "disk s"]
        distinct_slots [OF ok] i
      by (simp add: slots_def)
    finally show "d (slot s i) = payload s (lh_block (hdr s) ! i)" .
  qed
qed

text \<open>
  C2. Durability after the commit point. Take a commit of a well-formed log with
  \<open>n > 0\<close> distinct entries whose home blocks lie outside the log. Entered by a
  thread that holds no buffer, it returns. A commit that returns performs
  \<open>2 n + 2\<close> disk writes; write \<open>n + 1\<close> is the header-commit write and the last one
  the header-clear write. A crash strictly after the former and before the latter leaves
  the first \<open>k\<close> writes on disk, \<open>n < k < 2 n + 2\<close>. Rebooting on that disk,
  \<^verbatim>\<open>initlog\<close> returns; its disk writes copy log slot \<open>i\<close> to home block \<open>block[i]\<close>
  for \<open>i = 0, \<dots>, n - 1\<close>, each once, and then write the header; every logged block
  then holds on disk the payload it had in the cache at commit time, and the header on
  disk has count 0.
\<close>

theorem durability_after_commit_point:
  "log_ok P s \<and> 0 < lh_n (hdr s) \<and> homes_outside_log s \<and> distinct (logged s) \<and>
   sizeof_logheader P < BSIZE P \<and> sb_logstart sb = log_start (lg s) \<and>
   nat (lh_n (hdr s)) < k \<and> k < 2 * nat (lh_n (hdr s)) + 2 \<longrightarrow>
     (held s = {} \<longrightarrow> (\<exists>s'. commit s = Inr s')) \<and>
     (\<forall>s'. commit s = Inr s' \<longrightarrow>
        length (writes (events_since s s')) = 2 * nat (lh_n (hdr s)) + 2 \<and>
        fst (writes (events_since s s') ! nat (lh_n (hdr s))) = log_start (lg s) \<and>
        fst (last (writes (events_since s s'))) = log_start (lg s) \<and>
        (\<exists>r. initlog P dv sb (boot P (crash_disk s s' k)) = Inr r \<and>
             writes (trace r) =
               map (\<lambda>i. (lh_block (hdr s) ! i, crash_disk s s' k (slot s i)))
                 [0..<nat (lh_n (hdr s))] @
               [(log_start (lg s), disk r (log_start (lg s)))] \<and>
             distinct (map fst (writes (trace r))) \<and>
             (\<forall>b \<in> set (logged s). disk r b = payload s b) \<and>
             hdr_n (disk r (log_start (lg s))) = 0))"
proof (intro impI)
  assume a: "log_ok P s \<and> 0 < lh_n (hdr s) \<and> homes_outside_log s \<and> distinct (logged s) \<and>
   sizeof_logheader P < BSIZE P \<and> sb_logstart sb = log_start (lg s) \<and>
   nat (lh_n (hdr s)) < k \<and> k < 2 * nat (lh_n (hdr s)) + 2"
  then have ok: "log_ok P s" and pos: "0 < lh_n (hdr s)" and out: "homes_outside_log s"
    and dist: "distinct (logged s)" and sz: "sizeof_logheader P < BSIZE P"
    and sb: "sb_logstart sb = log_start (lg s)"
    and k: "nat (lh_n (hdr s)) < k" "k < 2 * nat (lh_n (hdr s)) + 2"
    by simp_all
  let ?n = "nat (lh_n (hdr s))"
  let ?st = "log_start (lg s)"
  let ?blk = "lh_block (hdr s)"
  let ?H = "encode (hdr s) (payload s ?st)"
  note fits = log_ok_fits [OF ok]
  from out have st_home: "?st \<notin> set (logged s)"
    and noalias: "set (logged s) \<inter> set (slots s) = {}" by (simp_all add: homes_outside_log_def)
  have returns: "\<exists>s'. commit s = Inr s'" if "held s = {}"
    using commit_returns [OF ok out that] .
  have after: "length (writes (events_since s s')) = 2 * nat (lh_n (hdr s)) + 2 \<and>
        fst (writes (events_since s s') ! nat (lh_n (hdr s))) = log_start (lg s) \<and>
        fst (last (writes (events_since s s'))) = log_start (lg s) \<and>
        (\<exists>r. initlog P dv sb (boot P (crash_disk s s' k)) = Inr r \<and>
             writes (trace r) =
               map (\<lambda>i. (lh_block (hdr s) ! i, crash_disk s s' k (slot s i)))
                 [0..<nat (lh_n (hdr s))] @
               [(log_start (lg s), disk r (log_start (lg s)))] \<and>
             distinct (map fst (writes (trace r))) \<and>
             (\<forall>b \<in> set (logged s). disk r b = payload s b) \<and>
             hdr_n (disk r (log_start (lg s))) = 0)"
    if c: "commit s = Inr s'" for s'
  proof -
  have ev: "trace s' = trace s @ four_phases s" by (rule commit_effect(1) [OF ok pos out c])
  have evs: "events_since s s' = four_phases s" using ev by simp
  let ?W = "writes (events_since s s')"
  have len: "length ?W = 2 * ?n + 2" by (simp add: evs four_phases_def)
  have hw: "fst (?W ! ?n) = ?st" by (simp add: evs four_phases_def nth_append)
  have lw: "fst (last ?W) = ?st" by (simp add: evs four_phases_def)
  \<comment> \<open>the disk the crash leaves\<close>
  let ?d = "crash_disk s s' k"
  have d: "?d = replay (take k (writes (four_phases s))) (disk s)"
    by (simp only: crash_disk_def evs)
  note cd = crash_after_commit_point [OF ok out k, folded d]
  \<comment> \<open>recovery on it\<close>
  let ?b1 = "(boot P ?d)\<lparr>lg := (lg (boot P ?d))\<lparr>log_start := sb_logstart sb,
            log_size := sint (sb_nlog sb), log_dev := dv\<rparr>\<rparr>"
  note b1 = recover_after_boot [where P = P and d = ?d and sb = sb and dv = dv]
  have st1: "log_start (lg ?b1) = ?st" using b1(4) sb by simp
  have sl1: "slot ?b1 = slot s" using st1 by (rule slot_start)
  have H1: "payload ?b1 (log_start (lg ?b1)) = ?H" using cd(1) by (simp only: st1 b1(3))
  have H1': "payload ?b1 ?st = ?H" using cd(1) by (simp only: b1(3))
  have hn: "hdr_n ?H = lh_n (hdr s)"
    using ok by (intro hdr_n_encode) (auto simp: log_ok_def)
  have m: "nat (hdr_n (payload ?b1 (log_start (lg ?b1)))) = ?n" by (simp only: H1 hn)
  have hb: "hdr_block ?H i = ?blk ! i" if "i < ?n" for i
    using that by (intro hdr_block_encode) linarith
  have nth_in: "?blk ! i \<in> set (logged s)" if "i < ?n" for i
    using that fits by (intro nth_logged) linarith+
  have c1: "nat (hdr_n (payload ?b1 (log_start (lg ?b1)))) \<le> length (lh_block (hdr ?b1))"
    using ok by (simp only: m b1(5)) (auto simp: log_ok_def)
  have c2: "\<forall>i<nat (hdr_n (payload ?b1 (log_start (lg ?b1)))).
      hdr_block (payload ?b1 (log_start (lg ?b1))) i \<noteq> log_start (lg ?b1)"
    unfolding st1 H1' hn using hb nth_in st_home by metis
  have c3: "\<forall>i<nat (hdr_n (payload ?b1 (log_start (lg ?b1)))).
      \<forall>j<nat (hdr_n (payload ?b1 (log_start (lg ?b1)))).
      hdr_block (payload ?b1 (log_start (lg ?b1))) i \<noteq> slot ?b1 j"
  proof (unfold st1 H1' hn sl1, intro allI impI)
    fix i j assume "i < ?n" "j < ?n"
    then have "?blk ! i \<in> set (logged s)" "slot s j \<in> set (slots s)"
      using nth_in by (simp_all add: slots_def)
    with noalias hb [OF \<open>i < ?n\<close>] show "hdr_block ?H i \<noteq> slot s j" by auto
  qed
  from recover_effect [OF c1 b1(7) c2 c3]
  obtain r where r: "recover_from_log ?b1 = Inr r"
    and tr0: "trace r = trace ?b1 @
        map (\<lambda>i. Bwrite (hdr_block (payload ?b1 (log_start (lg ?b1))) i) (payload ?b1 (slot ?b1 i)))
          [0..<nat (hdr_n (payload ?b1 (log_start (lg ?b1))))] @
        [Bwrite (log_start (lg ?b1)) ((payload ?b1 (log_start (lg ?b1)))(0 := 0))]"
    and tk: "tracked ?b1 r"
    by blast
  have tr1: "trace r = map (\<lambda>i. Bwrite (hdr_block ?H i) (?d (slot s i))) [0..<?n] @
        [Bwrite ?st (?H(0 := 0))]"
    using tr0 by (simp only: st1 sl1 b1(2,3) append_Nil cd(1) hn)
  have m3: "map (\<lambda>i. Bwrite (hdr_block ?H i) (?d (slot s i))) [0..<?n] =
            map (\<lambda>i. Bwrite (?blk ! i) (?d (slot s i))) [0..<?n]"
    by (rule map_cong [OF refl]) (simp add: hb)
  have m3': "map (\<lambda>i. Bwrite (?blk ! i) (?d (slot s i))) [0..<?n] = phase3 s"
    unfolding phase3_def by (rule map_cong [OF refl]) (simp add: cd(2))
  have tr: "trace r = map (\<lambda>i. Bwrite (?blk ! i) (?d (slot s i))) [0..<?n] @
        [Bwrite ?st (?H(0 := 0))]"
    using tr1 by (simp only: m3)
  have init: "initlog P dv sb (boot P ?d) = Inr r"
    using r by (simp only: initlog_boot [OF sz])
  have evr: "events_since ?b1 r = phase3 s @ [Bwrite ?st (?H(0 := 0))]"
    using tr by (simp only: m3' events_since_def b1(2)) simp
  have dr: "disk r = (replay (writes (phase3 s)) ?d)(?st := ?H(0 := 0))"
    using tracked_diskD [OF tk] by (simp only: evr b1(1)) (simp del: writes_phases)
  have hdr0: "disk r ?st = ?H(0 := 0)" by (simp add: dr)
  have wr: "writes (trace r) =
      map (\<lambda>i. (?blk ! i, ?d (slot s i))) [0..<?n] @ [(?st, disk r ?st)]"
    by (simp only: tr hdr0) simp
  have "map fst (writes (trace r)) = logged s @ [?st]"
    using fits by (simp add: wr comp_def logged_def map_nth_upt_take)
  then have dw: "distinct (map fst (writes (trace r)))"
    using dist st_home by simp
  have inst: "\<forall>b \<in> set (logged s). disk r b = payload s b"
  proof
    fix b assume b: "b \<in> set (logged s)"
    with st_home have "b \<noteq> ?st" by auto
    then have "disk r b = replay (writes (phase3 s)) ?d b" by (simp add: dr)
    also have "\<dots> = payload s b"
      using replay_functional [OF phase3_functional, of s ?d b] b fst_set_phase3 [OF fits]
      by simp
    finally show "disk r b = payload s b" .
  qed
  have h0: "hdr_n (disk r ?st) = 0" by (simp add: hdr0 hdr_n_def)
  from len hw lw init wr dw inst h0 show ?thesis by blast
  qed
  from returns after
  show "(held s = {} \<longrightarrow> (\<exists>s'. commit s = Inr s')) \<and>
     (\<forall>s'. commit s = Inr s' \<longrightarrow>
        length (writes (events_since s s')) = 2 * nat (lh_n (hdr s)) + 2 \<and>
        fst (writes (events_since s s') ! nat (lh_n (hdr s))) = log_start (lg s) \<and>
        fst (last (writes (events_since s s'))) = log_start (lg s) \<and>
        (\<exists>r. initlog P dv sb (boot P (crash_disk s s' k)) = Inr r \<and>
             writes (trace r) =
               map (\<lambda>i. (lh_block (hdr s) ! i, crash_disk s s' k (slot s i)))
                 [0..<nat (lh_n (hdr s))] @
               [(log_start (lg s), disk r (log_start (lg s)))] \<and>
             distinct (map fst (writes (trace r))) \<and>
             (\<forall>b \<in> set (logged s). disk r b = payload s b) \<and>
             hdr_n (disk r (log_start (lg s))) = 0))"
    by blast
qed

theorem durability_after_commit_point_witness:
  "\<exists>s' r.
     log_ok P0 batch \<and> 0 < lh_n (hdr batch) \<and> homes_outside_log batch \<and>
     distinct (logged batch) \<and> sizeof_logheader P0 < BSIZE P0 \<and>
     nat (lh_n (hdr batch)) < (4 :: nat) \<and> (4 :: nat) < 2 * nat (lh_n (hdr batch)) + 2 \<and>
     held batch = {} \<and> commit batch = Inr s' \<and>
     initlog P0 1 \<lparr>sb_logstart = 2, sb_nlog = 4\<rparr> (boot P0 (crash_disk batch s' 4)) = Inr r \<and>
     map fst (writes (trace r)) = [5, 9, 2] \<and>
     disk r 5 = (\<lambda>k. 7) \<and> disk r 9 = (\<lambda>k. 8) \<and> hdr_n (disk r 2) = 0"
proof -
  let ?sb = "\<lparr>sb_logstart = 2, sb_nlog = 4\<rparr>"
  have n: "lh_n (hdr batch) = 2" by (simp add: batch_def)
  have dl: "distinct (logged batch)" by (simp add: batch_facts)
  have sz: "sizeof_logheader P0 < BSIZE P0" by (simp add: sizeof_logheader_def P0_def)
  have pl: "payload batch 5 = (\<lambda>k. 7)" "payload batch 9 = (\<lambda>k. 8)"
    by (simp_all add: batch_def payload_def)
  have blk: "lh_block (hdr batch) ! 0 = 5" "lh_block (hdr batch) ! Suc 0 = 9"
    by (simp_all add: batch_def)
  note du = durability_after_commit_point [of P0 batch ?sb 4 1]
  from du batch_facts(1-3,6,7) dl sz n
  obtain s' where c: "commit batch = Inr s'" by auto
  from du batch_facts(1-3,6) dl sz n c
  obtain r where
    i: "initlog P0 1 ?sb (boot P0 (crash_disk batch s' 4)) = Inr r"
    and w: "writes (trace r) =
               map (\<lambda>i. (lh_block (hdr batch) ! i, crash_disk batch s' 4 (slot batch i)))
                 [0..<nat (lh_n (hdr batch))] @
               [(log_start (lg batch), disk r (log_start (lg batch)))]"
    and d: "\<forall>b \<in> set (logged batch). disk r b = payload batch b"
    and h: "hdr_n (disk r (log_start (lg batch))) = 0"
    by auto
  have "map fst (writes (trace r)) = [5, 9, 2]"
    by (simp add: w n blk batch_facts upt_rec)
  moreover have "disk r 5 = (\<lambda>k. 7)" "disk r 9 = (\<lambda>k. 8)"
    using d pl by (simp_all add: batch_facts)
  moreover have "hdr_n (disk r 2) = 0" using h by (simp add: batch_facts)
  ultimately show ?thesis
    using batch_facts(1-3,7) dl sz n c i by simp
qed

subsection \<open>Admission\<close>

lemma sleep_simps [simp]:
  "lg (sleep w s) = seen w" "trace (sleep w s) = trace s @ [Sleep]"
  "disk (sleep w s) = disk s" "pins (sleep w s) = pins s" "held (sleep w s) = held s"
  "cache (sleep w s) = cache s"
  by (simp_all add: sleep_def emit_def)

lemma sleep_killed [simp]: "sleep (w\<lparr>killed := c\<rparr>) s = sleep w s"
  by (simp add: sleep_def)

lemma begin_op_loop_killed:
  "begin_op_loop P (map (\<lambda>w. w\<lparr>killed := c\<rparr>) ws) s = begin_op_loop P ws s"
proof (induction ws arbitrary: s)
  case Nil
  show ?case by simp
next
  case (Cons w ws)
  show ?case
    by (subst begin_op_loop.simps, subst (2) begin_op_loop.simps) (simp add: Cons.IH)
qed

lemma begin_op_loop_closed:
  "begin_op_loop P ws s =
     (let vs = lg s # map seen ws;
          k = length (takeWhile (\<lambda>l. \<not> admissible P l) vs)
      in if k < length vs
         then Some (s\<lparr>lg := (vs ! k)\<lparr>log_outstanding := log_outstanding (vs ! k) + 1\<rparr>,
                      trace := trace s @ replicate k Sleep @ [Release]\<rparr>)
         else None)"
proof (induction ws arbitrary: s)
  case Nil
  show ?case
    by (subst begin_op_loop.simps)
       (auto simp: admissible_def Let_def release_def emit_def set_outstanding_def)
next
  case (Cons w ws)
  show ?case
  proof (cases "admissible P (lg s)")
    case True
    then show ?thesis
      by (subst begin_op_loop.simps)
         (auto simp: admissible_def Let_def release_def emit_def set_outstanding_def)
  next
    case False
    then have "begin_op_loop P (w # ws) s = begin_op_loop P ws (sleep w s)"
      by (subst begin_op_loop.simps) (auto simp: admissible_def)
    also note Cons.IH [of "sleep w s"]
    finally show ?thesis using False
      by (simp add: Let_def sleep_def emit_def)
  qed
qed

lemma begin_op_closed:
  "begin_op P ws s =
     (let vs = lg s # map seen ws;
          k = length (takeWhile (\<lambda>l. \<not> admissible P l) vs)
      in if k < length vs
         then Some (s\<lparr>lg := (vs ! k)\<lparr>log_outstanding := log_outstanding (vs ! k) + 1\<rparr>,
                      trace := trace s @ Acquire # replicate k Sleep @ [Release]\<rparr>)
         else None)"
  unfolding begin_op_def begin_op_loop_closed [of P ws "acquire s"]
  by (simp add: Let_def acquire_def emit_def)

lemma takeWhile_stops:
  "length (takeWhile Q xs) < length xs \<Longrightarrow>
   xs ! length (takeWhile Q xs) \<in> set xs \<and> \<not> Q (xs ! length (takeWhile Q xs))"
  using nth_length_takeWhile [of Q xs] by simp

lemma takeWhile_all:
  "\<not> length (takeWhile Q xs) < length xs \<longleftrightarrow> (\<forall>x \<in> set xs. Q x)"
  by (induction xs) auto

lemma begin_op_Some:
  assumes "begin_op P ws s = Some s'"
  shows "\<exists>pre \<in> set (lg s # map seen ws).
           admissible P pre \<and> lg s' = pre\<lparr>log_outstanding := log_outstanding pre + 1\<rparr>"
    and "disk s' = disk s" and "pins s' = pins s" and "held s' = held s"
    and "writes (events_since s s') = []"
proof -
  let ?vs = "lg s # map seen ws"
  let ?k = "length (takeWhile (\<lambda>l. \<not> admissible P l) ?vs)"
  from assms have k: "?k < length ?vs"
    and s': "s' = s\<lparr>lg := (?vs ! ?k)\<lparr>log_outstanding := log_outstanding (?vs ! ?k) + 1\<rparr>,
                      trace := trace s @ Acquire # replicate ?k Sleep @ [Release]\<rparr>"
    unfolding begin_op_closed [of P ws s] Let_def by (simp_all split: if_splits)
  from takeWhile_stops [OF k] have "?vs ! ?k \<in> set ?vs" "admissible P (?vs ! ?k)" by simp_all
  moreover have "lg s' = (?vs ! ?k)\<lparr>log_outstanding := log_outstanding (?vs ! ?k) + 1\<rparr>"
    by (subst s') simp
  ultimately show "\<exists>pre \<in> set ?vs.
           admissible P pre \<and> lg s' = pre\<lparr>log_outstanding := log_outstanding pre + 1\<rparr>"
    by blast
  show "disk s' = disk s" "pins s' = pins s" "held s' = held s" by (subst s', simp)+
  have "trace s' = trace s @ Acquire # replicate ?k Sleep @ [Release]" by (subst s') simp
  then have "events_since s s' = Acquire # replicate ?k Sleep @ [Release]" by simp
  moreover have "writes (replicate n Sleep @ [Release]) = []" for n by (induction n) simp_all
  ultimately show "writes (events_since s s') = []" by simp
qed

lemma begin_op_None:
  "begin_op P ws s = None \<longleftrightarrow> (\<forall>l \<in> set (lg s # map seen ws). \<not> admissible P l)"
proof -
  let ?vs = "lg s # map seen ws"
  let ?k = "length (takeWhile (\<lambda>l. \<not> admissible P l) ?vs)"
  have "begin_op P ws s = None \<longleftrightarrow> \<not> ?k < length ?vs"
    unfolding begin_op_closed [of P ws s] Let_def by (simp split: if_splits)
  also have "\<dots> \<longleftrightarrow> (\<forall>l \<in> set ?vs. \<not> admissible P l)" by (rule takeWhile_all)
  finally show ?thesis .
qed

lemma wake_facts:
  "\<not> admissible P0 (lg committing_now)" "admissible P0 (seen killed_wake)"
  "killed killed_wake" "log_outstanding (seen killed_wake) = 0"
  "log_outstanding (lg committing_now) = 0"
  by (simp_all add: admissible_def committing_now_def killed_wake_def set_committing_def
        mounted_def boot_def P0_def)

text \<open>
  C9. Cancellation of admission, as the code has it. \<^verbatim>\<open>begin_op\<close> returns nothing and
  never looks at whether its process was killed: a wake-up by cancellation is a wake-up
  like any other. The thread checks the wait condition again after every wake-up; it
  returns only from a state in which no commit is in progress and the log has room, and
  then it has added one to \<^verbatim>\<open>log.outstanding\<close>; as long as no state it sees is such a
  state, it keeps waiting.
\<close>

theorem begin_op_ignores_cancellation:
  "begin_op P (map (\<lambda>w. w\<lparr>killed := c\<rparr>) ws) s = begin_op P ws s \<and>
   (begin_op P ws s = None \<longleftrightarrow> (\<forall>l \<in> set (lg s # map seen ws). \<not> admissible P l)) \<and>
   (\<forall>s'. begin_op P ws s = Some s' \<longrightarrow>
      (\<exists>pre \<in> set (lg s # map seen ws).
          admissible P pre \<and> lg s' = pre\<lparr>log_outstanding := log_outstanding pre + 1\<rparr>))"
proof (intro conjI allI impI)
  show "begin_op P (map (\<lambda>w. w\<lparr>killed := c\<rparr>) ws) s = begin_op P ws s"
    by (simp add: begin_op_def begin_op_loop_killed)
  show "begin_op P ws s = None \<longleftrightarrow> (\<forall>l \<in> set (lg s # map seen ws). \<not> admissible P l)"
    by (rule begin_op_None)
next
  fix s' assume "begin_op P ws s = Some s'"
  then show "\<exists>pre \<in> set (lg s # map seen ws).
          admissible P pre \<and> lg s' = pre\<lparr>log_outstanding := log_outstanding pre + 1\<rparr>"
    by (rule begin_op_Some(1))
qed

theorem begin_op_ignores_cancellation_witness:
  "begin_op P0 (map (\<lambda>w. w\<lparr>killed := False\<rparr>) [killed_wake]) committing_now =
     begin_op P0 [killed_wake] committing_now \<and>
   (\<exists>s'. begin_op P0 [killed_wake] committing_now = Some s' \<and> log_outstanding (lg s') = 1)"
proof -
  note th = begin_op_ignores_cancellation [of P0 False "[killed_wake]" committing_now]
  from th wake_facts(2) have "begin_op P0 [killed_wake] committing_now \<noteq> None" by simp
  then obtain s' where s': "begin_op P0 [killed_wake] committing_now = Some s'" by blast
  with th obtain pre where "pre \<in> set (lg committing_now # map seen [killed_wake])"
    "admissible P0 pre" "lg s' = pre\<lparr>log_outstanding := log_outstanding pre + 1\<rparr>"
    by blast
  with wake_facts(1,4) have "log_outstanding (lg s') = 1" by auto
  with th s' show ?thesis by blast
qed

theorem cancelled_thread_is_admitted:
  "killed killed_wake \<and> log_outstanding (lg committing_now) = 0 \<and>
   map_option (\<lambda>s. log_outstanding (lg s)) (begin_op P0 [killed_wake] committing_now) = Some 1"
  by (simp add: begin_op_closed [of P0 "[killed_wake]" committing_now] wake_facts Let_def)

subsection \<open>The end of a transaction\<close>

lemma lock_free_simps [simp]:
  "lock_free []" "lock_free [Bwrite b d]"
  "lock_free (xs @ ys) \<longleftrightarrow> lock_free xs \<and> lock_free ys"
  by (auto simp: lock_free_def)

lemma lock_free_step:
  "tracked s s1 \<Longrightarrow> tracked s1 s2 \<Longrightarrow> lock_free (events_since s s1) \<Longrightarrow>
   lock_free (events_since s1 s2) \<Longrightarrow> lock_free (events_since s s2)"
  using tracked_events [of s s1 s2] by simp

lemma write_log_from_lock_free:
  "write_log_from tail s = Inr s' \<Longrightarrow> lock_free (events_since s s')"
proof (induction tail s rule: write_log_from.induct)
  case (1 tail s)
  show ?case
  proof (cases "int tail < lh_n (hdr s)")
    case True
    from write_log_from_step [OF "1.prems" True]
    obtain s1 where len: "tail < length (lh_block (hdr s))"
      and b: "write_log_body tail s = Inr s1"
      and run: "write_log_from (Suc tail) s1 = Inr s'" by blast
    have "lock_free (events_since s s1)" using write_log_body_effect(5) [OF b] by simp
    with tracked_bodies(2) [OF b] write_log_from_tracked [OF run] "1.IH" [OF True len b run]
    show ?thesis by (intro lock_free_step [of s s1 s'])
  next
    case False
    with write_log_from_stop [OF "1.prems"] show ?thesis by simp
  qed
qed

lemma install_trans_from_lock_free:
  "install_trans_from r tail s = Inr s' \<Longrightarrow> lock_free (events_since s s')"
proof (induction r tail s rule: install_trans_from.induct)
  case (1 r tail s)
  show ?case
  proof (cases "int tail < lh_n (hdr s)")
    case True
    from install_trans_from_step [OF "1.prems" True]
    obtain s1 where len: "tail < length (lh_block (hdr s))"
      and b: "install_body r tail s = Inr s1"
      and run: "install_trans_from r (Suc tail) s1 = Inr s'" by blast
    have "lock_free (events_since s s1)" using install_body_effect(5) [OF b] by simp
    with tracked_bodies(1) [OF b] install_trans_from_tracked [OF run] "1.IH" [OF True len b run]
    show ?thesis by (intro lock_free_step [of s s1 s'])
  next
    case False
    with install_trans_from_stop [OF "1.prems"] show ?thesis by simp
  qed
qed

lemma commit_frame:
  assumes "commit s = Inr s'"
  shows "lg s' = (if 0 < lh_n (hdr s) then (lg s)\<lparr>log_lh := (hdr s)\<lparr>lh_n := 0\<rparr>\<rparr> else lg s)"
    and "held s' = held s"
    and "lock_free (events_since s s')"
proof -
  have all: "lg s' = (if 0 < lh_n (hdr s) then (lg s)\<lparr>log_lh := (hdr s)\<lparr>lh_n := 0\<rparr>\<rparr> else lg s) \<and>
    held s' = held s \<and> lock_free (events_since s s')"
  proof (cases "0 < lh_n (hdr s)")
    case False
    with assms show ?thesis by (simp add: commit_def)
  next
    case True
    with assms obtain s1 s2 s3 where w1: "write_log_from 0 s = Inr s1"
      and w2: "write_head s1 = Inr s2" and w3: "install_trans_from 0 0 s2 = Inr s3"
      and w4: "write_head (set_n 0 s3) = Inr s'"
      by (auto simp: commit_def write_log_def install_trans_def split: sum.splits)
    note f1 = write_log_from_frame [OF w1]
    note e2 = write_head_effect [OF w2]
    note f3 = install_trans_from_lg [OF w3]
    note e4 = write_head_effect [OF w4]
    have t01: "tracked s s1" by (rule write_log_from_tracked [OF w1])
    have t12: "tracked s1 s2" using e2(4,5) by (simp add: tracked_def)
    have t23: "tracked s2 s3" by (rule install_trans_from_tracked [OF w3])
    have t34: "tracked s3 s'" using e4(4,5) by (simp add: tracked_def)
    have l01: "lock_free (events_since s s1)" by (rule write_log_from_lock_free [OF w1])
    have l12: "lock_free (events_since s1 s2)" using e2(5) by simp
    have l23: "lock_free (events_since s2 s3)" by (rule install_trans_from_lock_free [OF w3])
    have l34: "lock_free (events_since s3 s')" using e4(5) by simp
    have l02: "lock_free (events_since s s2)" by (rule lock_free_step [OF t01 t12 l01 l12])
    have t02: "tracked s s2" by (rule tracked_trans [OF t01 t12])
    have l03: "lock_free (events_since s s3)" by (rule lock_free_step [OF t02 t23 l02 l23])
    have t03: "tracked s s3" by (rule tracked_trans [OF t02 t23])
    have "lock_free (events_since s s')" by (rule lock_free_step [OF t03 t34 l03 l34])
    moreover have "lg s' = (lg s)\<lparr>log_lh := (hdr s)\<lparr>lh_n := 0\<rparr>\<rparr>"
      using e4(1) f3 e2(1) f1 by simp
    moreover have "held s' = held s" using e4(6) f3 e2(6) f1 by simp
    ultimately show ?thesis using True by simp
  qed
  from all show "lg s' = (if 0 < lh_n (hdr s) then (lg s)\<lparr>log_lh := (hdr s)\<lparr>lh_n := 0\<rparr>\<rparr> else lg s)"
    "held s' = held s" "lock_free (events_since s s')" by simp_all
qed

lemma end_op_panics:
  "log_committing (lg s) \<noteq> 0 \<Longrightarrow> end_op s = Inl (Panic ''log.committing'')"
  by (simp add: end_op_def Let_def acquire_def emit_def set_outstanding_def)

lemma end_op_no_commit:
  "log_committing (lg s) = 0 \<Longrightarrow> log_outstanding (lg s) \<noteq> 1 \<Longrightarrow>
   end_op s = Inr (s\<lparr>lg := (lg s)\<lparr>log_outstanding := log_outstanding (lg s) - 1\<rparr>,
                     trace := trace s @ [Acquire, Wakeup, Release]\<rparr>)"
  by (simp add: end_op_def Let_def acquire_def release_def wakeup_def emit_def
        set_outstanding_def)

lemma end_op_commits:
  "log_committing (lg s) = 0 \<Longrightarrow> log_outstanding (lg s) = 1 \<Longrightarrow>
   end_op s =
     (case commit (s\<lparr>lg := (lg s)\<lparr>log_outstanding := 0, log_committing := 1\<rparr>,
                     trace := trace s @ [Acquire, Release]\<rparr>) of
        Inl e \<Rightarrow> Inl e
      | Inr s5 \<Rightarrow> Inr (s5\<lparr>lg := (lg s5)\<lparr>log_committing := 0\<rparr>,
                         trace := trace s5 @ [Acquire, Wakeup, Release]\<rparr>))"
  by (simp add: end_op_def Let_def acquire_def release_def wakeup_def emit_def
        set_outstanding_def set_committing_def split: sum.splits)

lemma committer_simps [simp]:
  "lg (committer s) = (lg s)\<lparr>log_outstanding := log_outstanding (lg s) - 1, log_committing := 1\<rparr>"
  "trace (committer s) = trace s @ [Acquire, Release]"
  "disk (committer s) = disk s" "held (committer s) = held s" "pins (committer s) = pins s"
  "payload (committer s) x = payload s x"
  by (simp_all add: committer_def acquire_def release_def emit_def set_outstanding_def
        set_committing_def payload_def split: option.splits)

lemma end_op_commits_via:
  "log_committing (lg s) = 0 \<Longrightarrow> log_outstanding (lg s) = 1 \<Longrightarrow>
   end_op s =
     (case commit (committer s) of
        Inl e \<Rightarrow> Inl e
      | Inr s5 \<Rightarrow> Inr (s5\<lparr>lg := (lg s5)\<lparr>log_committing := 0\<rparr>,
                         trace := trace s5 @ [Acquire, Wakeup, Release]\<rparr>))"
  by (simp add: end_op_def Let_def committer_def acquire_def release_def wakeup_def emit_def
        set_outstanding_def set_committing_def split: sum.splits)

lemma end_op_after_commit:
  assumes c0: "log_committing (lg s) = 0" and o1: "log_outstanding (lg s) = 1"
    and c: "commit (committer s) = Inr s5"
  shows "\<exists>s'. end_op s = Inr s' \<and>
           events_since s s' =
             [Acquire, Release] @ events_since (committer s) s5 @ [Acquire, Wakeup, Release] \<and>
           lock_free (events_since (committer s) s5) \<and>
           log_outstanding (lg s') = 0 \<and> log_committing (lg s') = 0 \<and> disk s' = disk s5"
proof -
  let ?s' = "s5\<lparr>lg := (lg s5)\<lparr>log_committing := 0\<rparr>,
                trace := trace s5 @ [Acquire, Wakeup, Release]\<rparr>"
  have e: "end_op s = Inr ?s'" using end_op_commits_via [OF c0 o1] c by simp
  note f = commit_frame [OF c]
  have t5: "trace s5 = trace (committer s) @ events_since (committer s) s5"
    by (rule tracked_traceD [OF commit_tracked [OF c]])
  have "trace ?s' = trace s @
      ([Acquire, Release] @ events_since (committer s) s5 @ [Acquire, Wakeup, Release])"
    by (simp, subst t5, simp)
  then have "events_since s ?s' =
      [Acquire, Release] @ events_since (committer s) s5 @ [Acquire, Wakeup, Release]"
    by (rule events_since_append)
  moreover have "log_outstanding (lg ?s') = 0" using f(1) o1 by (simp split: if_splits)
  ultimately show ?thesis using e f(3) by simp
qed


lemma closing_facts:
  "log_ok P0 (committer (set_outstanding 1 batch))"
  "homes_outside_log (committer (set_outstanding 1 batch))"
  "held (committer (set_outstanding 1 batch)) = {}"
  "0 < lh_n (hdr (committer (set_outstanding 1 batch)))"
  "log_committing (lg (set_outstanding 1 batch)) = 0"
  "log_outstanding (lg (set_outstanding 1 batch)) = 1"
  "log_committing (lg (set_outstanding 2 batch)) = 0"
  "log_outstanding (lg (set_outstanding 2 batch)) = 2"
  "log_committing (lg (set_committing 1 batch)) = 1"
  by (simp_all add: batch_def mounted_def boot_def P0_def log_ok_def homes_outside_log_def
        logged_def slots_def slot_def upt_rec set_outstanding_def set_committing_def)


subsection \<open>Runs of transactions\<close>

lemma note_block_keys [simp]:
  "map fst (note_block t b xs) = map fst xs" "length (note_block t b xs) = length xs"
  by (induction t b xs rule: note_block.induct) auto

lemma note_block_sum:
  "map_of xs t = Some bs \<Longrightarrow>
   sum_list (map (\<lambda>x. M - int (length (snd x))) (note_block t b xs)) =
   sum_list (map (\<lambda>x. M - int (length (snd x))) xs) - (if b \<in> set bs then 0 else 1)"
  by (induction t b xs rule: note_block.induct) auto

lemma note_block_set:
  "map_of xs t = Some bs \<Longrightarrow> x \<in> set (note_block t b xs) \<Longrightarrow>
   x \<in> set xs \<or> x = (t, if b \<in> set bs then bs else bs @ [b])"
  by (induction t b xs rule: note_block.induct) (auto split: if_splits)

lemma close_length:
  "map_of xs t = Some bs \<Longrightarrow> distinct (map fst xs) \<Longrightarrow>
   int (length (filter (\<lambda>x. fst x \<noteq> t) xs)) = int (length xs) - 1"
proof (induction xs)
  case Nil
  then show ?case by simp
next
  case (Cons x xs)
  show ?case
  proof (cases "fst x = t")
    case True
    with Cons.prems(2) have "t \<notin> fst ` set xs" by simp
    then have "\<forall>y \<in> set xs. fst y \<noteq> t" by blast
    then have "filter (\<lambda>x. fst x \<noteq> t) xs = xs" by (simp add: filter_id_conv)
    with True show ?thesis by simp
  next
    case False
    with Cons.prems have "map_of xs t = Some bs" "distinct (map fst xs)"
      by (cases x, auto)+
    from Cons.IH [OF this] False show ?thesis by simp
  qed
qed

lemma close_sum:
  "map_of xs t = Some bs \<Longrightarrow> distinct (map fst xs) \<Longrightarrow>
   sum_list (map (\<lambda>x. M - int (length (snd x))) (filter (\<lambda>x. fst x \<noteq> t) xs)) =
   sum_list (map (\<lambda>x. M - int (length (snd x))) xs) - (M - int (length bs))"
proof (induction xs)
  case Nil
  then show ?case by simp
next
  case (Cons x xs)
  show ?case
  proof (cases "fst x = t")
    case True
    with Cons.prems(2) have "t \<notin> fst ` set xs" by simp
    then have "\<forall>y \<in> set xs. fst y \<noteq> t" by blast
    then have "filter (\<lambda>x. fst x \<noteq> t) xs = xs" by (simp add: filter_id_conv)
    moreover from True Cons.prems(1) have "snd x = bs" by (cases x) auto
    ultimately show ?thesis using True by simp
  next
    case False
    with Cons.prems have "map_of xs t = Some bs" "distinct (map fst xs)"
      by (cases x, auto)+
    from Cons.IH [OF this] False show ?thesis by simp
  qed
qed

lemma unused_bounds:
  "\<forall>x \<in> set xs. int (length (snd x)) \<le> M \<Longrightarrow>
   0 \<le> sum_list (map (\<lambda>x. M - int (length (snd x))) xs) \<and>
   sum_list (map (\<lambda>x. M - int (length (snd x))) xs) \<le> int (length xs) * M"
proof (induction xs)
  case Nil
  show ?case by simp
next
  case (Cons x xs)
  then show ?case by (auto simp: algebra_simps)
qed

lemma run_inv_begin:
  assumes inv: "run_inv P w" and st: "step P (Begin t) w = Some w'"
  shows "run_inv P w'"
proof -
  let ?s = "w_sys w"
  from st have new: "t \<notin> fst ` set (w_open w)"
    by (auto split: if_splits)
  with st obtain s' where b: "begin_op P [] ?s = Some s'"
    and w': "w' = \<lparr>w_sys = s', w_open = (t, []) # w_open w\<rparr>"
    by (auto split: option.splits)
  from begin_op_Some(1) [OF b]
  have ad: "admissible P (lg ?s)"
    and lg': "lg s' = (lg ?s)\<lparr>log_outstanding := log_outstanding (lg ?s) + 1\<rparr>" by simp_all
  from inv have ok: "log_ok P ?s" and m: "0 \<le> MAXOPBLOCKS P"
    and c0: "log_committing (lg ?s) = 0"
    and out: "log_outstanding (lg ?s) = int (length (w_open w))"
    and dk: "distinct (map fst (w_open w))"
    and each: "\<forall>x \<in> set (w_open w).
          set (snd x) \<subseteq> set (logged ?s) \<and> int (length (snd x)) \<le> MAXOPBLOCKS P"
    by (simp_all add: run_inv_def)
  have lgd: "logged s' = logged ?s" by (simp add: logged_def lg')
  from each have "\<forall>x \<in> set (w_open w). int (length (snd x)) \<le> MAXOPBLOCKS P" by simp
  from unused_bounds [OF this]
  have "unused_reservation P w \<le> int (length (w_open w)) * MAXOPBLOCKS P"
    by (simp add: unused_reservation_def)
  moreover from ad out
  have "lh_n (hdr ?s) + (int (length (w_open w)) + 1) * MAXOPBLOCKS P \<le> LOGSIZE P"
    by (simp add: admissible_def)
  ultimately have cap: "lh_n (hdr ?s) + (MAXOPBLOCKS P + unused_reservation P w) \<le> LOGSIZE P"
    by (simp add: algebra_simps)
  show ?thesis
    unfolding run_inv_def
  proof (intro conjI)
    show "log_ok P (w_sys w')" using ok by (simp add: w' log_ok_def lg')
    show "0 \<le> MAXOPBLOCKS P" by (rule m)
    show "log_committing (lg (w_sys w')) = 0" using c0 by (simp add: w' lg')
    show "log_outstanding (lg (w_sys w')) = int (length (w_open w'))"
      using out by (simp add: w' lg')
    show "distinct (map fst (w_open w'))" using dk new by (simp add: w')
    show "\<forall>x \<in> set (w_open w').
          set (snd x) \<subseteq> set (logged (w_sys w')) \<and> int (length (snd x)) \<le> MAXOPBLOCKS P"
      using each m by (simp add: w' lgd)
    show "lh_n (hdr (w_sys w')) + unused_reservation P w' \<le> LOGSIZE P"
      using cap by (simp add: w' lg' unused_reservation_def)
  qed
qed

lemma run_inv_write:
  assumes inv: "run_inv P w" and st: "step P (Write t b) w = Some w'"
  shows "run_inv P w'"
proof -
  let ?s = "w_sys w"
  from st obtain bs s' where mo: "map_of (w_open w) t = Some bs"
    and room: "b \<in> set bs \<or> int (length bs) < MAXOPBLOCKS P"
    and lw: "log_write P b ?s = Inr s'"
    and w': "w' = \<lparr>w_sys = s', w_open = note_block t b (w_open w)\<rparr>"
    by (auto split: option.splits if_splits sum.splits)
  from inv have ok: "log_ok P ?s" and m: "0 \<le> MAXOPBLOCKS P"
    and c0: "log_committing (lg ?s) = 0"
    and out: "log_outstanding (lg ?s) = int (length (w_open w))"
    and dk: "distinct (map fst (w_open w))"
    and each: "\<forall>x \<in> set (w_open w).
          set (snd x) \<subseteq> set (logged ?s) \<and> int (length (snd x)) \<le> MAXOPBLOCKS P"
    and cap: "lh_n (hdr ?s) + unused_reservation P w \<le> LOGSIZE P"
    by (simp_all add: run_inv_def)
  note e = log_write_effect [OF ok lw]
  note l = log_write_logged [OF ok lw]
  have mem: "(t, bs) \<in> set (w_open w)" using mo by (rule map_of_SomeD)
  from bspec [OF each mem]
  have sub: "set bs \<subseteq> set (logged ?s)" and len: "int (length bs) \<le> MAXOPBLOCKS P"
    by simp_all
  have grow: "set (logged ?s) \<subseteq> set (logged s')" and inb: "b \<in> set (logged s')"
    using l(1) by auto
  have same: "log_committing (lg s') = log_committing (lg ?s) \<and>
      log_outstanding (lg s') = log_outstanding (lg ?s) \<and>
      lh_n (hdr s') = lh_n (hdr ?s) + (if b \<in> set (logged ?s) then 0 else 1)"
    using e(4,5) by (cases "b \<in> set (logged ?s)") simp_all
  have us: "unused_reservation P w' =
      unused_reservation P w - (if b \<in> set bs then 0 else 1)"
    using note_block_sum [OF mo, of "MAXOPBLOCKS P" b] by (simp add: unused_reservation_def w')
  show ?thesis
    unfolding run_inv_def
  proof (intro conjI)
    show "log_ok P (w_sys w')" using l(2) by (simp add: w')
    show "0 \<le> MAXOPBLOCKS P" by (rule m)
    show "log_committing (lg (w_sys w')) = 0" using c0 same by (simp add: w')
    show "log_outstanding (lg (w_sys w')) = int (length (w_open w'))"
      using out same by (simp add: w')
    show "distinct (map fst (w_open w'))" using dk by (simp add: w')
    show "\<forall>x \<in> set (w_open w').
          set (snd x) \<subseteq> set (logged (w_sys w')) \<and> int (length (snd x)) \<le> MAXOPBLOCKS P"
    proof
      fix x assume "x \<in> set (w_open w')"
      then have "x \<in> set (note_block t b (w_open w))" by (simp add: w')
      from note_block_set [OF mo this]
      show "set (snd x) \<subseteq> set (logged (w_sys w')) \<and> int (length (snd x)) \<le> MAXOPBLOCKS P"
      proof
        assume "x \<in> set (w_open w)"
        with each grow show ?thesis by (auto simp: w')
      next
        assume x: "x = (t, if b \<in> set bs then bs else bs @ [b])"
        show ?thesis
        proof (cases "b \<in> set bs")
          case True
          with x sub grow len show ?thesis by (auto simp: w')
        next
          case False
          with room have "int (length bs) < MAXOPBLOCKS P" by simp
          with False x sub grow inb show ?thesis by (auto simp: w')
        qed
      qed
    qed
    show "lh_n (hdr (w_sys w')) + unused_reservation P w' \<le> LOGSIZE P"
    proof (cases "b \<in> set bs")
      case True
      with sub have "b \<in> set (logged ?s)" by auto
      with True same us cap show ?thesis by (simp add: w')
    next
      case False
      with same us cap show ?thesis by (simp add: w')
    qed
  qed
qed

lemma run_inv_end:
  assumes inv: "run_inv P w" and st: "step P (End t) w = Some w'"
  shows "run_inv P w'"
proof -
  let ?s = "w_sys w"
  let ?rest = "filter (\<lambda>x. fst x \<noteq> t) (w_open w)"
  from st obtain bs s' where mo: "map_of (w_open w) t = Some bs"
    and eo: "end_op ?s = Inr s'"
    and w': "w' = \<lparr>w_sys = s', w_open = ?rest\<rparr>"
    by (auto split: option.splits sum.splits)
  from inv have ok: "log_ok P ?s" and m: "0 \<le> MAXOPBLOCKS P"
    and c0: "log_committing (lg ?s) = 0"
    and out: "log_outstanding (lg ?s) = int (length (w_open w))"
    and dk: "distinct (map fst (w_open w))"
    and each: "\<forall>x \<in> set (w_open w).
          set (snd x) \<subseteq> set (logged ?s) \<and> int (length (snd x)) \<le> MAXOPBLOCKS P"
    and cap: "lh_n (hdr ?s) + unused_reservation P w \<le> LOGSIZE P"
    by (simp_all add: run_inv_def)
  have mem: "(t, bs) \<in> set (w_open w)" using mo by (rule map_of_SomeD)
  from bspec [OF each mem] have len: "int (length bs) \<le> MAXOPBLOCKS P" by simp
  have rl: "int (length ?rest) = int (length (w_open w)) - 1" by (rule close_length [OF mo dk])
  have rs: "unused_reservation P w' = unused_reservation P w - (MAXOPBLOCKS P - int (length bs))"
    using close_sum [OF mo dk, of "MAXOPBLOCKS P"] by (simp add: unused_reservation_def w')
  have rd: "distinct (map fst ?rest)" using dk by (simp add: distinct_map_filter)
  show ?thesis
  proof (cases "log_outstanding (lg ?s) = 1")
    case False
    from end_op_no_commit [OF c0 False] eo
    have s': "s' = ?s\<lparr>lg := (lg ?s)\<lparr>log_outstanding := log_outstanding (lg ?s) - 1\<rparr>,
                     trace := trace ?s @ [Acquire, Wakeup, Release]\<rparr>" by simp
    have lgd: "logged s' = logged ?s" by (simp add: logged_def s')
    show ?thesis
      unfolding run_inv_def
    proof (intro conjI)
      show "log_ok P (w_sys w')" using ok by (simp add: w' log_ok_def s')
      show "0 \<le> MAXOPBLOCKS P" by (rule m)
      show "log_committing (lg (w_sys w')) = 0" using c0 by (simp add: w' s')
      show "log_outstanding (lg (w_sys w')) = int (length (w_open w'))"
        using out rl by (simp add: w' s')
      show "distinct (map fst (w_open w'))" using rd by (simp add: w')
      show "\<forall>x \<in> set (w_open w').
          set (snd x) \<subseteq> set (logged (w_sys w')) \<and> int (length (snd x)) \<le> MAXOPBLOCKS P"
        using each by (simp add: w' lgd)
      show "lh_n (hdr (w_sys w')) + unused_reservation P w' \<le> LOGSIZE P"
        using cap rs len by (simp add: w' s')
    qed
  next
    case True
    with out rl have "length ?rest = 0" by simp
    then have empty: "?rest = []" by simp
    from end_op_commits_via [OF c0 True] eo obtain s5 where c: "commit (committer ?s) = Inr s5"
      and s': "s' = s5\<lparr>lg := (lg s5)\<lparr>log_committing := 0\<rparr>,
                       trace := trace s5 @ [Acquire, Wakeup, Release]\<rparr>"
      by (auto split: sum.splits)
    note f = commit_frame(1) [OF c]
    have n0: "0 \<le> lh_n (hdr ?s)" and nL: "lh_n (hdr ?s) \<le> LOGSIZE P"
      using ok by (simp_all add: log_ok_def)
    have lg': "lg s' = (lg ?s)\<lparr>log_outstanding := 0, log_committing := 0,
                               log_lh := (hdr ?s)\<lparr>lh_n := 0\<rparr>\<rparr>"
      using f n0 True by (cases "0 < lh_n (hdr ?s)") (simp_all add: s')
    show ?thesis
      unfolding run_inv_def
    proof (intro conjI)
      show "log_ok P (w_sys w')" using ok n0 nL by (simp add: w' log_ok_def lg')
      show "0 \<le> MAXOPBLOCKS P" by (rule m)
      show "log_committing (lg (w_sys w')) = 0" by (simp add: w' lg')
      show "log_outstanding (lg (w_sys w')) = int (length (w_open w'))"
        by (simp add: w' lg' empty)
      show "distinct (map fst (w_open w'))" by (simp add: w' empty)
      show "\<forall>x \<in> set (w_open w').
          set (snd x) \<subseteq> set (logged (w_sys w')) \<and> int (length (snd x)) \<le> MAXOPBLOCKS P"
        by (simp add: w' empty)
      show "lh_n (hdr (w_sys w')) + unused_reservation P w' \<le> LOGSIZE P"
        using n0 nL by (simp add: w' lg' empty unused_reservation_def)
    qed
  qed
qed

lemma run_inv_step: "run_inv P w \<Longrightarrow> step P c w = Some w' \<Longrightarrow> run_inv P w'"
  by (cases c) (auto intro: run_inv_begin run_inv_write run_inv_end)

lemma run_inv_run: "run_inv P w \<Longrightarrow> run P cs w = Some w' \<Longrightarrow> run_inv P w'"
proof (induction cs arbitrary: w)
  case Nil
  then show ?case by simp
next
  case (Cons c cs)
  from Cons.prems(2) obtain w1 where s: "step P c w = Some w1" and r: "run P cs w1 = Some w'"
    by (auto split: option.splits)
  from Cons.IH [OF run_inv_step [OF Cons.prems(1) s] r] show ?case .
qed

lemma run_inv_fresh:
  "0 \<le> LOGSIZE P \<Longrightarrow> LOGSIZE P < 2 ^ 31 \<Longrightarrow> 0 \<le> MAXOPBLOCKS P \<Longrightarrow> run_inv P (fresh P d)"
  by (simp add: run_inv_def fresh_def mounted_def boot_def log_ok_def unused_reservation_def)

lemma closing_run:
  "run P0 [Begin 1, Write 1 5, Begin 2, End 2, End 1, Begin 3] (fresh P0 (\<lambda>b k. 0)) \<noteq> None"
  by (simp add: fresh_def begin_op_closed admissible_def Let_def mounted_def boot_def P0_def
        log_write_def log_scan.simps acquire_def release_def wakeup_def emit_def set_block_def
        set_n_def set_outstanding_def set_committing_def
        bpin_def bunpin_def eval_nat_numeral end_op_def commit_def write_log_def
        write_log_from.simps write_log_body_def install_trans_def install_trans_from.simps
        install_body_def write_head_def write_head_from.simps bread_def load_def brelse_def
        bwrite_def memmove_buf_def poke_def payload_def slot_def)


lemma begin_op_waits:
  "\<not> admissible P (lg s) \<Longrightarrow>
   begin_op P ws s =
     (case ws of [] \<Rightarrow> None | w # ws' \<Rightarrow> begin_op_loop P ws' (sleep w (acquire s)))"
  unfolding begin_op_def
  by (subst begin_op_loop.simps) (auto simp: admissible_def acquire_def emit_def)

lemma crowded_run:
  "run P0 [Begin 1, Begin 2, Begin 3, Begin 4, Write 1 5] (fresh P0 (\<lambda>b k. 0)) =
   Some \<lparr>w_sys = (mounted P0 (\<lambda>b k. 0))
             \<lparr>pins := (\<lambda>b. 0)(5 := 1),
              lg := (lg (mounted P0 (\<lambda>b k. 0)))
                \<lparr>log_outstanding := 4, log_lh := \<lparr>lh_n = 1, lh_block = [5, 0, 0, 0]\<rparr>\<rparr>,
              trace := [Acquire, Release, Acquire, Release, Acquire, Release, Acquire, Release,
                        Acquire, Release]\<rparr>,
         w_open = [(4, []), (3, []), (2, []), (1, [5])]\<rparr>"
  by (simp add: fresh_def begin_op_closed admissible_def Let_def mounted_def boot_def P0_def
        log_write_def log_scan.simps acquire_def release_def emit_def set_block_def set_n_def
        bpin_def eval_nat_numeral)

text \<open>
  C4. Admission and the capacity of the log. \<^verbatim>\<open>begin_op\<close> adds one to
  \<^verbatim>\<open>log.outstanding\<close> only in a state it sees with no commit in progress and
  \<open>n + (outstanding + 1) * MAXOPBLOCKS \<le> LOGSIZE\<close>; in any other state it sleeps.
  Every run of admitted transactions that log at most \<open>MAXOPBLOCKS\<close> distinct blocks each
  keeps the count plus the unused part of the reservations of the open transactions
  within \<open>LOGSIZE\<close>, and so the count itself.
\<close>

theorem admission_capacity:
  "(\<forall>s'. begin_op P ws s = Some s' \<longrightarrow>
      (\<exists>pre \<in> set (lg s # map seen ws).
          admissible P pre \<and> lg s' = pre\<lparr>log_outstanding := log_outstanding pre + 1\<rparr>)) \<and>
   (\<not> admissible P (lg s) \<longrightarrow>
      begin_op P ws s =
        (case ws of [] \<Rightarrow> None | w # ws' \<Rightarrow> begin_op_loop P ws' (sleep w (acquire s)))) \<and>
   (0 \<le> LOGSIZE P \<and> LOGSIZE P < 2 ^ 31 \<and> 0 \<le> MAXOPBLOCKS P \<longrightarrow> run_inv P (fresh P d)) \<and>
   (run_inv P w \<and> run P cs w = Some w' \<longrightarrow>
      run_inv P w' \<and> 0 \<le> unused_reservation P w' \<and>
      lh_n (hdr (w_sys w')) + unused_reservation P w' \<le> LOGSIZE P \<and>
      lh_n (hdr (w_sys w')) \<le> LOGSIZE P)"
proof (intro conjI allI impI)
  fix s' assume "begin_op P ws s = Some s'"
  then show "\<exists>pre \<in> set (lg s # map seen ws).
          admissible P pre \<and> lg s' = pre\<lparr>log_outstanding := log_outstanding pre + 1\<rparr>"
    by (rule begin_op_Some(1))
next
  assume "\<not> admissible P (lg s)"
  then show "begin_op P ws s =
        (case ws of [] \<Rightarrow> None | w # ws' \<Rightarrow> begin_op_loop P ws' (sleep w (acquire s)))"
    by (rule begin_op_waits)
next
  assume "0 \<le> LOGSIZE P \<and> LOGSIZE P < 2 ^ 31 \<and> 0 \<le> MAXOPBLOCKS P"
  then show "run_inv P (fresh P d)" by (intro run_inv_fresh) simp_all
next
  assume a: "run_inv P w \<and> run P cs w = Some w'"
  then have inv: "run_inv P w'" using run_inv_run [of P w cs w'] by simp
  then have cap: "lh_n (hdr (w_sys w')) + unused_reservation P w' \<le> LOGSIZE P"
    and each: "\<forall>x \<in> set (w_open w'). int (length (snd x)) \<le> MAXOPBLOCKS P"
    by (simp_all add: run_inv_def)
  from unused_bounds [OF each] have pos: "0 \<le> unused_reservation P w'"
    by (simp add: unused_reservation_def)
  show "run_inv P w'" by (rule inv)
  show "0 \<le> unused_reservation P w'" by (rule pos)
  show "lh_n (hdr (w_sys w')) + unused_reservation P w' \<le> LOGSIZE P" by (rule cap)
  show "lh_n (hdr (w_sys w')) \<le> LOGSIZE P" using cap pos by simp
qed

theorem admission_capacity_witness:
  "(\<exists>s'. begin_op P0 [killed_wake] committing_now = Some s' \<and>
         lg s' = (seen killed_wake)\<lparr>log_outstanding := 1\<rparr>) \<and>
   \<not> admissible P0 (lg committing_now) \<and>
   0 \<le> LOGSIZE P0 \<and> LOGSIZE P0 < 2 ^ 31 \<and> 0 \<le> MAXOPBLOCKS P0 \<and>
   run_inv P0 (fresh P0 (\<lambda>b k. 0)) \<and>
   (\<exists>w'. run P0 [Begin 1, Write 1 5, Begin 2, End 2, End 1, Begin 3] (fresh P0 (\<lambda>b k. 0)) =
           Some w' \<and>
         lh_n (hdr (w_sys w')) + unused_reservation P0 w' \<le> LOGSIZE P0)"
proof -
  let ?cs = "[Begin 1, Write 1 5, Begin 2, End 2, End 1, Begin 3]"
  let ?w = "fresh P0 (\<lambda>b k. 0)"
  have c: "0 \<le> LOGSIZE P0 \<and> LOGSIZE P0 < 2 ^ 31 \<and> 0 \<le> MAXOPBLOCKS P0"
    by (simp add: P0_def)
  from closing_run obtain w' where r: "run P0 ?cs ?w = Some w'" by blast
  have b: "begin_op P0 [killed_wake] committing_now =
      begin_op_loop P0 [] (sleep killed_wake (acquire committing_now))"
    using admission_capacity [of P0 "[killed_wake]" committing_now "\<lambda>b k. 0" ?w ?cs w']
      wake_facts(1) by simp
  have "begin_op P0 [killed_wake] committing_now \<noteq> None"
    unfolding b by (subst begin_op_loop.simps) (simp add: killed_wake_def mounted_def boot_def P0_def)
  then obtain s' where s': "begin_op P0 [killed_wake] committing_now = Some s'" by blast
  note th = admission_capacity [of P0 "[killed_wake]" committing_now "\<lambda>b k. 0" ?w ?cs w']
  from th s' obtain pre where "pre \<in> set (lg committing_now # map seen [killed_wake])"
    "admissible P0 pre" "lg s' = pre\<lparr>log_outstanding := log_outstanding pre + 1\<rparr>"
    by blast
  with wake_facts(1,4) have l: "lg s' = (seen killed_wake)\<lparr>log_outstanding := 1\<rparr>" by auto
  from th c have i: "run_inv P0 ?w" by blast
  with th r have "lh_n (hdr (w_sys w')) + unused_reservation P0 w' \<le> LOGSIZE P0" by blast
  with s' l wake_facts(1) c i r show ?thesis by blast
qed

theorem whole_reservations_overflow:
  "map_option (\<lambda>w. lh_n (hdr (w_sys w)) + whole_reservation P0 w)
     (run P0 [Begin 1, Begin 2, Begin 3, Begin 4, Write 1 5] (fresh P0 (\<lambda>b k. 0))) = Some 5 \<and>
   LOGSIZE P0 = 4"
  by (subst crowded_run) (simp add: whole_reservation_def mounted_def boot_def P0_def)

subsection \<open>The count and the header block\<close>

lemma recover_from_log_length:
  assumes "recover_from_log s = Inr s1"
  shows "length (lh_block (hdr s1)) = length (lh_block (hdr s))"
proof -
  from assms obtain a b where a: "read_head s = Inr a" and b: "install_trans 1 a = Inr b"
    and w: "write_head (set_n 0 b) = Inr s1"
    by (auto simp: recover_from_log_def split: sum.splits)
  from b have "lg b = lg a" by (simp add: install_trans_def install_trans_from_lg)
  with read_head_effect(10) [OF a] write_head_effect(1) [OF w] show ?thesis by simp
qed

lemma log_ok_commit:
  assumes ok: "log_ok P s" and c: "commit s = Inr t"
  shows "log_ok P t" and "lh_n (hdr t) = 0"
proof -
  from ok have "0 \<le> lh_n (hdr s)" by (simp add: log_ok_def)
  with commit_frame(1) [OF c] ok show "log_ok P t" "lh_n (hdr t) = 0"
    by (cases "0 < lh_n (hdr s)"; simp add: log_ok_def)+
qed

lemma log_ok_end_op:
  assumes ok: "log_ok P s" and e: "end_op s = Inr u"
  shows "log_ok P u"
proof -
  from e end_op_panics [of s] have c0: "log_committing (lg s) = 0" by auto
  show ?thesis
  proof (cases "log_outstanding (lg s) = 1")
    case False
    from end_op_no_commit [OF c0 False] e ok show ?thesis by (auto simp: log_ok_def)
  next
    case True
    from end_op_commits_via [OF c0 True] e obtain s5 where c: "commit (committer s) = Inr s5"
      and u: "u = s5\<lparr>lg := (lg s5)\<lparr>log_committing := 0\<rparr>,
                       trace := trace s5 @ [Acquire, Wakeup, Release]\<rparr>"
      by (auto split: sum.splits)
    have "log_ok P (committer s)" using ok by (simp add: log_ok_def)
    from log_ok_commit(1) [OF this c] show ?thesis by (simp add: u log_ok_def)
  qed
qed

lemma log_ok_begin_op:
  assumes ok: "log_ok P s" and b: "begin_op P [] s = Some v"
  shows "log_ok P v"
  using begin_op_Some(1) [OF b] ok by (simp add: log_ok_def)

lemma log_ok_initlog:
  assumes l: "0 \<le> LOGSIZE P" "LOGSIZE P < 2 ^ 31"
    and i: "initlog P dv sb (boot P d) = Inr r"
  shows "log_ok P r" and "lh_n (hdr r) = 0"
proof -
  let ?b1 = "(boot P d)\<lparr>lg := (lg (boot P d))\<lparr>log_start := sb_logstart sb,
            log_size := sint (sb_nlog sb), log_dev := dv\<rparr>\<rparr>"
  from i have r: "recover_from_log ?b1 = Inr r"
    by (simp add: initlog_def split: if_splits)
  show n: "lh_n (hdr r) = 0" by (rule recover_from_log_header(1) [OF r])
  have "length (lh_block (hdr r)) = nat (LOGSIZE P)"
    using recover_from_log_length [OF r] by (simp add: boot_def)
  with n l show "log_ok P r" by (simp add: log_ok_def)
qed

lemma encode_beyond: "0 \<le> lh_n h \<Longrightarrow> lh_n h < int k \<Longrightarrow> encode h d k = d k"
  by (auto simp: encode_def)

text \<open>
  C8. The count and the layout of the header. Every operation of the log keeps
  \<open>0 \<le> n \<le> LOGSIZE\<close>, and \<^verbatim>\<open>initlog\<close> starts with \<open>n = 0\<close>. A \<^verbatim>\<open>log_write\<close> that
  returns leaves \<open>n \<le> log.size - 1\<close>, so at most \<open>LOGSIZE - 1\<close> block numbers when the
  log region has \<open>LOGSIZE\<close> blocks (\<^verbatim>\<open>struct logheader\<close> declares \<open>LOGSIZE\<close> entries; the
  last one is then never used). \<^verbatim>\<open>write_head\<close> writes the header block only: word 0 is
  the count, the next \<open>n\<close> words are the block numbers, and the words after them keep what
  the block held. \<^verbatim>\<open>log_write\<close> panics, whatever the block, when \<open>n \<ge> LOGSIZE\<close> or
  \<open>n \<ge> log.size - 1\<close>, that is when one more block number would not fit.
\<close>

theorem header_capacity_and_layout:
  "(log_ok P s \<and> log_write P b s = Inr s' \<longrightarrow>
      log_ok P s' \<and> lh_n (hdr s') \<le> log_size (lg s') - 1 \<and>
      (log_size (lg s) \<le> LOGSIZE P \<longrightarrow> lh_n (hdr s') \<le> LOGSIZE P - 1)) \<and>
   (log_ok P s \<and> commit s = Inr t \<longrightarrow> log_ok P t \<and> lh_n (hdr t) = 0) \<and>
   (log_ok P s \<and> end_op s = Inr u \<longrightarrow> log_ok P u) \<and>
   (log_ok P s \<and> begin_op P [] s = Some v \<longrightarrow> log_ok P v) \<and>
   (0 \<le> LOGSIZE P \<and> LOGSIZE P < 2 ^ 31 \<and> initlog P dv sb (boot P d) = Inr r \<longrightarrow>
      log_ok P r \<and> lh_n (hdr r) = 0) \<and>
   (log_ok P s \<and> write_head s = Inr h \<longrightarrow>
      hdr_n (disk h (log_start (lg s))) = lh_n (hdr s) \<and>
      (\<forall>i. int i < lh_n (hdr s) \<longrightarrow>
           hdr_block (disk h (log_start (lg s))) i = lh_block (hdr s) ! i) \<and>
      (\<forall>k. lh_n (hdr s) < int k \<longrightarrow>
           disk h (log_start (lg s)) k = payload s (log_start (lg s)) k) \<and>
      (\<forall>x. x \<noteq> log_start (lg s) \<longrightarrow> disk h x = disk s x)) \<and>
   (LOGSIZE P \<le> lh_n (hdr s) \<or> log_size (lg s) - 1 \<le> lh_n (hdr s) \<longrightarrow>
      log_write P b s = Inl (Panic ''too big a transaction''))"
proof -
  have p1: "log_ok P s' \<and> lh_n (hdr s') \<le> log_size (lg s') - 1 \<and>
      (log_size (lg s) \<le> LOGSIZE P \<longrightarrow> lh_n (hdr s') \<le> LOGSIZE P - 1)"
    if a: "log_ok P s \<and> log_write P b s = Inr s'"
  proof -
    from a have ok: "log_ok P s" and w: "log_write P b s = Inr s'" by simp_all
    note e = log_write_effect [OF ok w]
    have "lh_n (hdr s') \<le> lh_n (hdr s) + 1 \<and> log_size (lg s') = log_size (lg s)"
      using e(4,5) by (cases "b \<in> set (logged s)") simp_all
    with e(2) log_write_logged(2) [OF ok w] show ?thesis by simp
  qed
  have p2: "log_ok P t \<and> lh_n (hdr t) = 0" if "log_ok P s \<and> commit s = Inr t"
    using that log_ok_commit [of P s t] by simp
  have p3: "log_ok P u" if "log_ok P s \<and> end_op s = Inr u"
    using that log_ok_end_op [of P s u] by simp
  have p4: "log_ok P v" if "log_ok P s \<and> begin_op P [] s = Some v"
    using that log_ok_begin_op [of P s v] by simp
  have p5: "log_ok P r \<and> lh_n (hdr r) = 0"
    if "0 \<le> LOGSIZE P \<and> LOGSIZE P < 2 ^ 31 \<and> initlog P dv sb (boot P d) = Inr r"
    using that log_ok_initlog [of P dv sb d r] by simp
  have p6: "hdr_n (disk h (log_start (lg s))) = lh_n (hdr s) \<and>
      (\<forall>i. int i < lh_n (hdr s) \<longrightarrow>
           hdr_block (disk h (log_start (lg s))) i = lh_block (hdr s) ! i) \<and>
      (\<forall>k. lh_n (hdr s) < int k \<longrightarrow>
           disk h (log_start (lg s)) k = payload s (log_start (lg s)) k) \<and>
      (\<forall>x. x \<noteq> log_start (lg s) \<longrightarrow> disk h x = disk s x)"
    if a: "log_ok P s \<and> write_head s = Inr h"
  proof -
    from a have ok: "log_ok P s" and w: "write_head s = Inr h" by simp_all
    from ok have n: "0 \<le> lh_n (hdr s)" "lh_n (hdr s) < 2 ^ 31" by (simp_all add: log_ok_def)
    have d: "disk h = (disk s)(log_start (lg s) := encode (hdr s) (payload s (log_start (lg s))))"
      by (rule write_head_effect(4) [OF w])
    have "hdr_n (encode (hdr s) (payload s (log_start (lg s)))) = lh_n (hdr s)"
      using n by (intro hdr_n_encode) simp_all
    then show ?thesis using n(1) by (simp add: d hdr_block_encode encode_beyond)
  qed
  have p7: "log_write P b s = Inl (Panic ''too big a transaction'')"
    if "LOGSIZE P \<le> lh_n (hdr s) \<or> log_size (lg s) - 1 \<le> lh_n (hdr s)"
    using that by (intro log_write_panics(1)) simp
  from p1 p2 p3 p4 p5 p6 p7 show ?thesis by blast
qed

lemma header_samples:
  "log_ok P0 (set_outstanding 2 batch)" "log_ok P0 (set_n 3 opened)"
  "log_size (lg (set_n 3 opened)) - 1 \<le> lh_n (hdr (set_n 3 opened))"
  "lh_n (hdr (set_n 3 opened)) < LOGSIZE P0"
  "initlog P0 0 \<lparr>sb_logstart = 2, sb_nlog = 4\<rparr> (boot P0 scenario_disk) =
     recover_from_log (mounted P0 scenario_disk)"
  "admissible P0 (lg opened)"
  "lh_block (hdr batch) ! 0 = 5" "lh_block (hdr batch) ! Suc 0 = 9" "lh_n (hdr batch) = 2"
  "log_size (lg opened) \<le> LOGSIZE P0" "0 \<le> LOGSIZE P0" "LOGSIZE P0 < 2 ^ 31"
  by (simp_all add: batch_def opened_def mounted_def boot_def P0_def log_ok_def
        set_outstanding_def set_n_def initlog_def sizeof_logheader_def admissible_def)

theorem header_capacity_and_layout_witness:
  "log_ok P0 opened \<and> log_size (lg opened) \<le> LOGSIZE P0 \<and>
   (\<exists>s'. log_write P0 5 opened = Inr s' \<and> log_ok P0 s' \<and> lh_n (hdr s') \<le> LOGSIZE P0 - 1) \<and>
   log_ok P0 batch \<and> (\<exists>t. commit batch = Inr t \<and> lh_n (hdr t) = 0) \<and>
   (\<exists>u. end_op (set_outstanding 2 batch) = Inr u \<and> log_ok P0 u) \<and>
   (\<exists>v. begin_op P0 [] opened = Some v \<and> log_ok P0 v) \<and>
   (\<exists>r. initlog P0 0 \<lparr>sb_logstart = 2, sb_nlog = 4\<rparr> (boot P0 scenario_disk) = Inr r \<and>
        log_ok P0 r \<and> lh_n (hdr r) = 0) \<and>
   (\<exists>h. write_head batch = Inr h \<and> hdr_n (disk h 2) = 2 \<and>
        hdr_block (disk h 2) 0 = 5 \<and> hdr_block (disk h 2) 1 = 9 \<and> disk h 5 = disk batch 5) \<and>
   lh_n (hdr (set_n 3 opened)) < LOGSIZE P0 \<and>
   log_write P0 5 (set_n 3 opened) = Inl (Panic ''too big a transaction'')"
proof -
  let ?sb = "\<lparr>sb_logstart = 2, sb_nlog = 4\<rparr>"
  from log_write_returns [of P0 opened 5]
  obtain s' where s': "log_write P0 5 opened = Inr s'" by (auto simp: opened_facts)
  from commit_returns [OF batch_facts(1,3,7)] obtain t where t: "commit batch = Inr t" ..
  from end_op_no_commit [of "set_outstanding 2 batch"] closing_facts(7,8)
  obtain u where u: "end_op (set_outstanding 2 batch) = Inr u" by simp
  from begin_op_None [of P0 "[]" opened] header_samples(6)
  obtain v where v: "begin_op P0 [] opened = Some v" by auto
  from scenario_recovers header_samples(5)
  obtain r where r: "initlog P0 0 ?sb (boot P0 scenario_disk) = Inr r" by auto
  from write_head_returns [of batch] log_ok_fits [OF batch_facts(1)] batch_facts(6,7)
  obtain h where h: "write_head batch = Inr h" by auto
  note a = header_capacity_and_layout
    [where P = P0 and s = opened and b = 5 and s' = s' and dv = 0 and sb = ?sb
       and d = scenario_disk and r = r and v = v]
  note b = header_capacity_and_layout
    [where P = P0 and s = batch and t = t and h = h]
  note c = header_capacity_and_layout
    [where P = P0 and s = "set_outstanding 2 batch" and u = u]
  note d = header_capacity_and_layout [where P = P0 and s = "set_n 3 opened" and b = 5]
  have 1: "log_ok P0 s' \<and> lh_n (hdr s') \<le> LOGSIZE P0 - 1"
    using a s' opened_facts(1) header_samples(10) by blast
  have 2: "lh_n (hdr t) = 0" using b t batch_facts(1) by blast
  have 3: "log_ok P0 u" using c u header_samples(1) by blast
  have 4: "log_ok P0 v" using a v opened_facts(1) by blast
  have 5: "log_ok P0 r \<and> lh_n (hdr r) = 0" using a r header_samples(11,12) by blast
  from b h batch_facts(1)
  have 6: "hdr_n (disk h (log_start (lg batch))) = lh_n (hdr batch)"
    "\<forall>i. int i < lh_n (hdr batch) \<longrightarrow>
        hdr_block (disk h (log_start (lg batch))) i = lh_block (hdr batch) ! i"
    "\<forall>x. x \<noteq> log_start (lg batch) \<longrightarrow> disk h x = disk batch x"
    by blast+
  have 7: "hdr_n (disk h 2) = 2" "hdr_block (disk h 2) 0 = 5" "hdr_block (disk h 2) 1 = 9"
    "disk h 5 = disk batch 5"
    using 6(1) 6(2) [rule_format, of 0] 6(2) [rule_format, of 1] 6(3) [rule_format, of 5]
    by (simp_all add: batch_facts header_samples)
  have 8: "log_write P0 5 (set_n 3 opened) = Inl (Panic ''too big a transaction'')"
    using d header_samples(3) by blast
  from 1 2 3 4 5 7 8 s' t u v r h opened_facts(1) batch_facts(1) header_samples(4,10)
  show ?thesis by blast
qed

end
